theory Spec2Isabelle
  imports Main
begin

section \<open>Errors and the external Spec interface\<close>

text \<open>
  Every way in which the code of \<^verbatim>\<open>lib/spack/spack/cmd/context.py\<close> stops early is a
  value. \<^verbatim>\<open>tty.die(msg)\<close> prints the message and exits the process; the other
  constructors are the Python exceptions that the modelled statements can raise.
\<close>

datatype error =
    Die string
  | KeyError string
  | AttributeError string string
  | IOError string
  | OSError string
  | ExternalError string

text \<open>
  The class \<^verbatim>\<open>Spec\<close> (parsing, concretization, hashing, traversal, serialization) is
  imported by the module and not part of it. Its operations are the fields of a record
  that every modelled function takes as its first argument; \<open>'s\<close> is the type of Spec
  objects and \<open>'d\<close> the type of the dictionaries produced by \<^verbatim>\<open>Spec.to_dict\<close>.
  \<^item> \<open>Spec\<close>: the constructor \<^verbatim>\<open>Spec(string)\<close>;
  \<^item> \<open>spec_name\<close>, \<open>spec_str\<close>, \<open>spec_format\<close>: \<^verbatim>\<open>.name\<close>, \<^verbatim>\<open>str(.)\<close>, \<^verbatim>\<open>.format()\<close>;
  \<^item> \<open>spec_concretize\<close>: \<^verbatim>\<open>.concretize()\<close>, which may raise;
  \<^item> \<open>dag_hash\<close>: \<^verbatim>\<open>.dag_hash()\<close>;
  \<^item> \<open>traverse\<close>: \<^verbatim>\<open>.traverse(deptype=...)\<close>, the nodes in visiting order;
  \<^item> \<open>spec_contains\<close>, \<open>spec_getitem\<close>: \<^verbatim>\<open>name in spec\<close> and \<^verbatim>\<open>spec[name]\<close>;
  \<^item> \<open>clear_concrete\<close>: the loop that sets \<^verbatim>\<open>_concrete = False\<close> and
    \<^verbatim>\<open>_hash = None\<close> on every node of a copy;
  \<^item> \<open>relax_versions\<close>: \<^verbatim>\<open>spec[dep_name].versions = VersionList(':')\<close>;
  \<^item> \<open>spec_to_dict\<close>, \<open>spec_from_dict\<close>: \<^verbatim>\<open>.to_dict(all_deps=True)\<close> and
    \<^verbatim>\<open>Spec.from_dict\<close>;
  \<^item> \<open>do_install\<close>: \<^verbatim>\<open>.package.do_install(explicit=True)\<close>, the installer;
  \<^item> \<open>var_path\<close>: the constant \<^verbatim>\<open>spack.var_path\<close>.
\<close>

record ('s, 'd) spack =
  Spec :: "string \<Rightarrow> 's"
  spec_name :: "'s \<Rightarrow> string"
  spec_str :: "'s \<Rightarrow> string"
  spec_format :: "'s \<Rightarrow> string"
  spec_concretize :: "'s \<Rightarrow> error + 's"
  dag_hash :: "'s \<Rightarrow> string"
  traverse :: "string list \<Rightarrow> 's \<Rightarrow> 's list"
  spec_contains :: "string \<Rightarrow> 's \<Rightarrow> bool"
  spec_getitem :: "'s \<Rightarrow> string \<Rightarrow> error + 's"
  clear_concrete :: "'s \<Rightarrow> 's"
  relax_versions :: "'s \<Rightarrow> string \<Rightarrow> error + 's"
  spec_to_dict :: "'s \<Rightarrow> 'd"
  spec_from_dict :: "'d \<Rightarrow> 's"
  do_install :: "'s \<Rightarrow> error + unit"
  var_path :: string

section \<open>Context state\<close>

text \<open>
  \<^verbatim>\<open>class Context\<close>, lines 17-28. The specification calls \<open>user_specs\<close> the requests,
  \<open>concretized_order\<close> the resolutions, \<open>specs_by_hash\<close> the graphs by hash, and
  \<open>common_libs\<close>, \<open>common_bins\<close> the pinned libraries and binaries.
\<close>

record 's context_state =
  name :: string
  user_specs :: "string list"
  concretized_order :: "string list"
  specs_by_hash :: "string \<rightharpoonup> 's"
  common_libs :: "string \<rightharpoonup> string"
  common_bins :: "string \<rightharpoonup> string"

definition Context :: "string \<Rightarrow> 's context_state" where
  "Context n = \<lparr> name = n, user_specs = [], concretized_order = [],
       specs_by_hash = Map.empty, common_libs = Map.empty, common_bins = Map.empty \<rparr>"

text \<open>\<^verbatim>\<open>del xs[i]\<close> for an index \<open>i\<close> in range.\<close>

definition del_index :: "nat \<Rightarrow> 'a list \<Rightarrow> 'a list" where
  "del_index i xs = take i xs @ drop (Suc i) xs"

text \<open>
  \<^verbatim>\<open>Context.add\<close>, lines 30-37. The state is returned with the outcome, so that what a
  failed call leaves behind is part of the model.
\<close>

definition add :: "('s, 'd) spack \<Rightarrow> string \<Rightarrow> 's context_state \<Rightarrow> (error + unit) \<times> 's context_state" where
  "add api user_spec self =
     (let query_spec = Spec api user_spec;
          existing = set (filter (\<lambda>x. spec_name api (Spec api x) = spec_name api query_spec)
                            (user_specs self))
      in if existing \<noteq> {}
         then (Inl (Die (''Package '' @ spec_name api query_spec @
                         '' was already added to '' @ name self)), self)
         else (Inr (), self\<lparr>user_specs := user_specs self @ [user_spec]\<rparr>))"

text \<open>
  The search loop of \<^verbatim>\<open>Context.remove\<close>, lines 41-45: the index of the first request
  with the queried package name, or \<open>-1\<close>.
\<close>

fun match_loop :: "('s, 'd) spack \<Rightarrow> 's \<Rightarrow> nat \<Rightarrow> string list \<Rightarrow> int" where
  "match_loop api query_spec i [] = - 1"
| "match_loop api query_spec i (spec # rest) =
     (if spec_name api (Spec api spec) = spec_name api query_spec then int i
      else match_loop api query_spec (Suc i) rest)"

text \<open>
  \<^verbatim>\<open>Context.remove\<close>, lines 39-54. The three \<^verbatim>\<open>del\<close> statements run in the source's
  order; the last one raises \<^verbatim>\<open>KeyError\<close> when the hash is not a key, after the two
  sequences have already been shortened.
\<close>

definition remove :: "('s, 'd) spack \<Rightarrow> string \<Rightarrow> 's context_state \<Rightarrow> (error + unit) \<times> 's context_state" where
  "remove api query self =
     (let query_spec = Spec api query;
          match_index = match_loop api query_spec 0 (user_specs self)
      in if match_index < 0
         then (Inl (Die (''Not found: '' @ spec_str api query_spec)), self)
         else
           let i = nat match_index;
               self1 = self\<lparr>user_specs := del_index i (user_specs self)\<rparr>
           in if i < length (concretized_order self1)
              then
                let spec_hash = concretized_order self1 ! i;
                    self2 = self1\<lparr>concretized_order := del_index i (concretized_order self1)\<rparr>
                in (case specs_by_hash self2 spec_hash of
                      None \<Rightarrow> (Inl (KeyError spec_hash), self2)
                    | Some _ \<Rightarrow>
                        (Inr (), self2\<lparr>specs_by_hash := (specs_by_hash self2)(spec_hash := None)\<rparr>))
              else (Inr (), self1))"

text \<open>
  The loop of \<^verbatim>\<open>Context.concretize\<close>, lines 59-64, over the requests still to resolve.
  A request whose concretization raises stops the loop; what was stored before stays.
\<close>

fun concretize_loop ::
  "('s, 'd) spack \<Rightarrow> string list \<Rightarrow> 's list \<Rightarrow> 's context_state \<Rightarrow> (error + 's list) \<times> 's context_state" where
  "concretize_loop api [] new_specs self = (Inr new_specs, self)"
| "concretize_loop api (user_spec # rest) new_specs self =
     (case spec_concretize api (Spec api user_spec) of
        Inl e \<Rightarrow> (Inl e, self)
      | Inr spec \<Rightarrow>
          concretize_loop api rest (new_specs @ [spec])
            (self\<lparr>specs_by_hash := (specs_by_hash self)(dag_hash api spec \<mapsto> spec),
                  concretized_order := concretized_order self @ [dag_hash api spec]\<rparr>))"

text \<open>\<^verbatim>\<open>Context.concretize\<close>, lines 56-65.\<close>

definition concretize :: "('s, 'd) spack \<Rightarrow> 's context_state \<Rightarrow> (error + 's list) \<times> 's context_state" where
  "concretize api self =
     (let num_concretized = length (concretized_order self)
      in concretize_loop api (drop num_concretized (user_specs self)) [] self)"

text \<open>
  \<^verbatim>\<open>Context.install\<close>, lines 67-70. The second component is the list of Specs the
  installer has been invoked on so far, in order.
\<close>

fun install_loop ::
  "('s, 'd) spack \<Rightarrow> string list \<Rightarrow> 's context_state \<Rightarrow> 's list \<Rightarrow> (error + unit) \<times> 's list" where
  "install_loop api [] self installed = (Inr (), installed)"
| "install_loop api (concretized_hash # rest) self installed =
     (case specs_by_hash self concretized_hash of
        None \<Rightarrow> (Inl (KeyError concretized_hash), installed)
      | Some spec \<Rightarrow>
          (case do_install api spec of
             Inl e \<Rightarrow> (Inl e, installed @ [spec])
           | Inr _ \<Rightarrow> install_loop api rest self (installed @ [spec])))"

definition install :: "('s, 'd) spack \<Rightarrow> 's context_state \<Rightarrow> 's list \<Rightarrow> (error + unit) \<times> 's list" where
  "install api self installed = install_loop api (concretized_order self) self installed"

text \<open>\<^verbatim>\<open>upgrade_dependency_version\<close>, lines 206-213.\<close>

definition upgrade_dependency_version :: "('s, 'd) spack \<Rightarrow> 's \<Rightarrow> string \<Rightarrow> error + 's" where
  "upgrade_dependency_version api spec dep_name =
     (case relax_versions api (clear_concrete api spec) dep_name of
        Inl e \<Rightarrow> Inl e
      | Inr spec' \<Rightarrow> spec_concretize api spec')"

text \<open>
  The loop of \<^verbatim>\<open>Context.upgrade_dependency\<close>, lines 105-117. It carries
  \<open>new_order\<close>, \<open>new_deps\<close> and the lines printed by \<^verbatim>\<open>tty.msg\<close>; the dictionary
  \<open>specs_by_hash\<close> is updated in place while the loop still reads it.
\<close>

fun upgrade_loop ::
  "('s, 'd) spack \<Rightarrow> string \<Rightarrow> bool \<Rightarrow> string list \<Rightarrow> string list \<Rightarrow> 's list \<Rightarrow> string list \<Rightarrow>
   's context_state \<Rightarrow> (error + string list \<times> 's list \<times> string list) \<times> 's context_state" where
  "upgrade_loop api dep_name dry_run [] new_order new_deps msgs self =
     (Inr (new_order, new_deps, msgs), self)"
| "upgrade_loop api dep_name dry_run (spec_hash # rest) new_order new_deps msgs self =
     (case specs_by_hash self spec_hash of
        None \<Rightarrow> (Inl (KeyError spec_hash), self)
      | Some spec \<Rightarrow>
          if spec_contains api dep_name spec
          then
            if dry_run
            then
              (case spec_getitem api spec dep_name of
                 Inl e \<Rightarrow> (Inl e, self)
               | Inr dep \<Rightarrow>
                   upgrade_loop api dep_name dry_run rest new_order new_deps
                     (msgs @ [''Would upgrade '' @ spec_format api dep @ '' for '' @
                              spec_format api spec]) self)
            else
              (case upgrade_dependency_version api spec dep_name of
                 Inl e \<Rightarrow> (Inl e, self)
               | Inr new_spec \<Rightarrow>
                   let self' = self\<lparr>specs_by_hash :=
                                 (specs_by_hash self)(dag_hash api new_spec \<mapsto> new_spec)\<rparr>
                   in (case spec_getitem api new_spec dep_name of
                         Inl e \<Rightarrow> (Inl e, self')
                       | Inr new_dep \<Rightarrow>
                           upgrade_loop api dep_name dry_run rest
                             (new_order @ [dag_hash api new_spec]) (new_deps @ [new_dep]) msgs self'))
          else upgrade_loop api dep_name dry_run rest (new_order @ [spec_hash]) new_deps msgs self)"

text \<open>
  \<^verbatim>\<open>Context.upgrade_dependency\<close>, lines 85-121. The result is the returned value
  (\<open>None\<close> for Python's \<^verbatim>\<open>None\<close>) with the lines printed by \<^verbatim>\<open>tty.msg\<close>.
\<close>

definition upgrade_dependency ::
  "('s, 'd) spack \<Rightarrow> string \<Rightarrow> bool \<Rightarrow> 's context_state \<Rightarrow>
   (error + 's option \<times> string list) \<times> 's context_state" where
  "upgrade_dependency api dep_name dry_run self =
     (case upgrade_loop api dep_name dry_run (concretized_order self) [] [] [] self of
        (Inl e, self') \<Rightarrow> (Inl e, self')
      | (Inr (new_order, new_deps, msgs), self') \<Rightarrow>
          if \<not> dry_run
          then (Inr (case new_deps of [] \<Rightarrow> None | d # _ \<Rightarrow> Some d, msgs),
                self'\<lparr>concretized_order := new_order\<rparr>)
          else (Inr (None, msgs), self'))"

text \<open>
  The inner loop of \<^verbatim>\<open>Context._get_environment_specs\<close>, lines 140-146, over the nodes
  of one root. A warning is kept as the pair of Specs that \<^verbatim>\<open>tty.warn\<close> formats: the
  one already selected and the one met now.
\<close>

fun env_dep_loop ::
  "('s, 'd) spack \<Rightarrow> 's list \<Rightarrow> (string \<rightharpoonup> 's) \<Rightarrow> ('s \<times> 's) list \<Rightarrow> (string \<rightharpoonup> 's) \<times> ('s \<times> 's) list" where
  "env_dep_loop api [] package_to_spec warnings = (package_to_spec, warnings)"
| "env_dep_loop api (dep # rest) package_to_spec warnings =
     (case package_to_spec (spec_name api dep) of
        Some kept \<Rightarrow> env_dep_loop api rest package_to_spec (warnings @ [(kept, dep)])
      | None \<Rightarrow> env_dep_loop api rest (package_to_spec(spec_name api dep \<mapsto> dep)) warnings)"

text \<open>The text of one warning, line 142.\<close>

definition warn_text :: "('s, 'd) spack \<Rightarrow> 's \<times> 's \<Rightarrow> string" where
  "warn_text api w = spec_format api (fst w) @ '' takes priority over '' @ spec_format api (snd w)"

text \<open>The outer loop, lines 138-146, over the resolved roots.\<close>

fun env_root_loop ::
  "('s, 'd) spack \<Rightarrow> string list \<Rightarrow> 's context_state \<Rightarrow> (string \<rightharpoonup> 's) \<Rightarrow> ('s \<times> 's) list \<Rightarrow>
   error + (string \<rightharpoonup> 's) \<times> ('s \<times> 's) list" where
  "env_root_loop api [] self package_to_spec warnings = Inr (package_to_spec, warnings)"
| "env_root_loop api (spec_hash # rest) self package_to_spec warnings =
     (case specs_by_hash self spec_hash of
        None \<Rightarrow> Inl (KeyError spec_hash)
      | Some spec \<Rightarrow>
          (case env_dep_loop api (traverse api [''link'', ''run''] spec) package_to_spec warnings of
             (package_to_spec', warnings') \<Rightarrow> env_root_loop api rest self package_to_spec' warnings'))"

text \<open>
  \<^verbatim>\<open>Context._get_environment_specs\<close>, lines 134-148. The source returns the values of
  the dictionary as a list in the dictionary's order; the model returns the dictionary,
  and the warnings in the order they are printed.
\<close>

definition get_environment_specs ::
  "('s, 'd) spack \<Rightarrow> 's context_state \<Rightarrow> error + (string \<rightharpoonup> 's) \<times> ('s \<times> 's) list" where
  "get_environment_specs api self = env_root_loop api (concretized_order self) self Map.empty []"

text \<open>
  \<^verbatim>\<open>Context.to_dict\<close> and \<^verbatim>\<open>Context.from_dict\<close>, lines 166-185. The dictionary has the
  four keys of the source; \<open>specs_by_hash\<close> is not part of it.
\<close>

record context_dict =
  d_user_specs :: "string list"
  d_concretized_order :: "string list"
  d_common_libs :: "string \<rightharpoonup> string"
  d_common_bins :: "string \<rightharpoonup> string"

definition to_dict :: "'s context_state \<Rightarrow> context_dict" where
  "to_dict self = \<lparr> d_user_specs = user_specs self,
                    d_concretized_order = concretized_order self,
                    d_common_libs = common_libs self,
                    d_common_bins = common_bins self \<rparr>"

definition from_dict :: "string \<Rightarrow> context_dict \<Rightarrow> 's context_state" where
  "from_dict n d = (Context n)\<lparr> user_specs := d_user_specs d,
                               concretized_order := d_concretized_order d,
                               common_libs := d_common_libs d,
                               common_bins := d_common_bins d \<rparr>"

section \<open>The persisted layout\<close>

text \<open>
  The contexts directory holds one directory per context name and, while a write is
  under way or after a crash, the two sibling directories of the write protocol. The
  model keeps one entry per directory path; a directory holds the two files and the
  snapshot directory that \<^verbatim>\<open>write\<close> creates, and whatever directories were moved into it.
  A file holds the value that \<^verbatim>\<open>syaml.dump\<close> or \<^verbatim>\<open>sjson.dump\<close> was given, which is
  what \<^verbatim>\<open>syaml.load\<close> and \<^verbatim>\<open>sjson.load\<close> return for it. A package-definition snapshot
  is the list of its package directories. Context names are single path components.
\<close>

type_synonym repo_tree = "string list"

datatype 'd dir =
  Dir (context_yaml: "context_dict option")
      (full_specs_json: "(string \<rightharpoonup> 'd) option")
      (repo: "repo_tree option")
      (nested: "(string \<times> 'd dir) list")

type_synonym 'd filesystem = "string \<rightharpoonup> 'd dir"

type_synonym 'd fs_step = "'d filesystem \<Rightarrow> (error + unit) \<times> 'd filesystem"

definition join_path :: "string \<Rightarrow> string \<Rightarrow> string" where
  "join_path a b = a @ ''/'' @ b"

definition basename :: "string \<Rightarrow> string" where
  "basename p = rev (takeWhile (\<lambda>c. c \<noteq> CHR ''/'') (rev p))"

definition path_exists :: "'d filesystem \<Rightarrow> string \<Rightarrow> bool" where
  "path_exists fs p = (p \<in> dom fs)"

text \<open>The names of the entries of a directory.\<close>

definition entry_names :: "'d dir \<Rightarrow> string set" where
  "entry_names d =
     (if context_yaml d = None then {} else {''context.yaml''}) \<union>
     (if full_specs_json d = None then {} else {''full_specs.json''}) \<union>
     (if repo d = None then {} else {''repo''}) \<union> fst ` set (nested d)"

text \<open>\<^verbatim>\<open>fs.mkdirp\<close>: creates the directory unless it exists.\<close>

definition mkdirp :: "string \<Rightarrow> 'd fs_step" where
  "mkdirp p fs = (Inr (), if path_exists fs p then fs else fs(p \<mapsto> Dir None None None []))"

text \<open>\<^verbatim>\<open>shutil.rmtree\<close>: raises when the directory does not exist.\<close>

definition rmtree :: "string \<Rightarrow> 'd fs_step" where
  "rmtree p fs = (if path_exists fs p then (Inr (), fs(p := None)) else (Inl (OSError p), fs))"

text \<open>
  \<^verbatim>\<open>shutil.move\<close> of a directory: a rename when the destination does not exist; when
  the destination is a directory, the source is moved into it under its base name,
  unless an entry of that name is there already.
\<close>

definition move :: "string \<Rightarrow> string \<Rightarrow> 'd fs_step" where
  "move src dst fs =
     (case fs src of
        None \<Rightarrow> (Inl (IOError src), fs)
      | Some d \<Rightarrow>
          (case fs dst of
             None \<Rightarrow> (Inr (), (fs(src := None))(dst \<mapsto> d))
           | Some t \<Rightarrow>
               if basename src \<in> entry_names t
               then (Inl (OSError (join_path dst (basename src))), fs)
               else (Inr (), (fs(src := None))
                       (dst \<mapsto> Dir (context_yaml t) (full_specs_json t) (repo t)
                                   (nested t @ [(basename src, d)])))))"

text \<open>
  \<^verbatim>\<open>open(join_path(p, 'full_specs.json'), 'w')\<close> and
  \<^verbatim>\<open>open(join_path(p, 'context.yaml'), 'w')\<close> followed by the dump of a value: opening
  fails when the directory \<open>p\<close> does not exist.
\<close>

definition write_full_specs :: "string \<Rightarrow> (string \<rightharpoonup> 'd) \<Rightarrow> 'd fs_step" where
  "write_full_specs p v fs =
     (case fs p of
        None \<Rightarrow> (Inl (IOError (join_path p ''full_specs.json'')), fs)
      | Some d \<Rightarrow> (Inr (), fs(p \<mapsto> Dir (context_yaml d) (Some v) (repo d) (nested d))))"

definition write_context_yaml :: "string \<Rightarrow> context_dict \<Rightarrow> 'd fs_step" where
  "write_context_yaml p v fs =
     (case fs p of
        None \<Rightarrow> (Inl (IOError (join_path p ''context.yaml'')), fs)
      | Some d \<Rightarrow> (Inr (), fs(p \<mapsto> Dir (Some v) (full_specs_json d) (repo d) (nested d))))"

text \<open>
  \<^verbatim>\<open>shutil.copytree(src, join_path(p, 'repo'))\<close> for a source tree \<open>tree\<close>: the
  destination must not exist; missing parent directories are created.
\<close>

definition copytree_repo :: "repo_tree \<Rightarrow> string \<Rightarrow> 'd fs_step" where
  "copytree_repo tree p fs =
     (case fs p of
        None \<Rightarrow> (Inr (), fs(p \<mapsto> Dir None None (Some tree) []))
      | Some d \<Rightarrow>
          if repo d = None
          then (Inr (), fs(p \<mapsto> Dir (context_yaml d) (full_specs_json d) (Some tree) (nested d)))
          else (Inl (OSError (join_path p ''repo'')), fs))"

text \<open>The snapshot directory \<^verbatim>\<open>join_path(p, 'repo')\<close>, when it exists.\<close>

definition repo_at :: "'d filesystem \<Rightarrow> string \<Rightarrow> repo_tree option" where
  "repo_at fs p = (case fs p of None \<Rightarrow> None | Some d \<Rightarrow> repo d)"

text \<open>\<^verbatim>\<open>_db_dirname\<close>, line 15, and \<^verbatim>\<open>Context.path\<close>, lines 187-188.\<close>

definition db_dirname :: "('s, 'd) spack \<Rightarrow> string" where
  "db_dirname api = join_path (var_path api) ''contexts''"

definition path :: "('s, 'd) spack \<Rightarrow> 's context_state \<Rightarrow> string" where
  "path api self = join_path (db_dirname api) (name self)"

text \<open>\<^verbatim>\<open>write_paths\<close>, lines 241-245: staging, committed and rollback directory.\<close>

definition write_paths :: "('s, 'd) spack \<Rightarrow> 's context_state \<Rightarrow> string \<times> string \<times> string" where
  "write_paths api context =
     (let tmp_new = join_path (db_dirname api) (''_'' @ name context);
          dest = path api context;
          tmp_old = join_path (db_dirname api) (''.'' @ name context)
      in (tmp_new, dest, tmp_old))"

text \<open>
  \<^verbatim>\<open>store_specs_by_hash\<close>, lines 270-278: the dictionary handed to \<^verbatim>\<open>sjson.dump\<close>.
  The \<^verbatim>\<open>except\<close> clause is entered only when the dump raises.
\<close>

definition store_specs_by_hash :: "('s, 'd) spack \<Rightarrow> (string \<rightharpoonup> 's) \<Rightarrow> (string \<rightharpoonup> 'd)" where
  "store_specs_by_hash api specs = (\<lambda>k. map_option (spec_to_dict api) (specs k))"

text \<open>The message of lines 219 and 284.\<close>

definition partial_write_msg :: string where
  "partial_write_msg =
     ''Partial write state, run '' @ [CHR 0x27] @ ''spack context repair'' @ [CHR 0x27]"

text \<open>
  The statements of \<^verbatim>\<open>write\<close> after its check, lines 221-239, one per change of the
  directory tree, in the source's order: create the staging directory; write the two
  files; copy the snapshot; park the committed directory under the rollback path;
  rename the staging directory to the committed path; remove the rollback directory.
\<close>

definition write_steps ::
  "('s, 'd) spack \<Rightarrow> 's context_state \<Rightarrow> repo_tree option \<Rightarrow> 'd fs_step list" where
  "write_steps api context new_repo =
     (case write_paths api context of (tmp_new, dest, tmp_old) \<Rightarrow>
        [ mkdirp tmp_new,
          write_full_specs tmp_new (store_specs_by_hash api (specs_by_hash context)),
          write_context_yaml tmp_new (to_dict context),
          (\<lambda>fs. case new_repo of
                   Some tree \<Rightarrow> copytree_repo tree tmp_new fs
                 | None \<Rightarrow>
                     (case repo_at fs (path api context) of
                        Some tree \<Rightarrow> copytree_repo tree tmp_new fs
                      | None \<Rightarrow> (Inr (), fs))),
          (\<lambda>fs. if path_exists fs dest then move dest tmp_old fs else (Inr (), fs)),
          move tmp_new dest,
          (\<lambda>fs. if path_exists fs tmp_old then rmtree tmp_old fs else (Inr (), fs)) ])"

text \<open>Statements run one after the other; the first that raises ends the run.\<close>

fun run_steps :: "'d fs_step list \<Rightarrow> 'd fs_step" where
  "run_steps [] fs = (Inr (), fs)"
| "run_steps (f # rest) fs =
     (case f fs of (Inl e, fs') \<Rightarrow> (Inl e, fs') | (Inr _, fs') \<Rightarrow> run_steps rest fs')"

text \<open>
  \<^verbatim>\<open>write\<close>, lines 215-239, stopped after its first \<open>k\<close> changes of the directory tree
  (a crash of the process at that point); all seven is the whole function.
\<close>

definition write_interrupted ::
  "nat \<Rightarrow> ('s, 'd) spack \<Rightarrow> 's context_state \<Rightarrow> repo_tree option \<Rightarrow> 'd fs_step" where
  "write_interrupted k api context new_repo fs =
     (case write_paths api context of (tmp_new, dest, tmp_old) \<Rightarrow>
        if path_exists fs tmp_new \<or> path_exists fs tmp_old
        then (Inl (Die partial_write_msg), fs)
        else run_steps (take k (write_steps api context new_repo)) fs)"

text \<open>\<^verbatim>\<open>write\<close>, lines 215-239 (\<open>write\<close> is a reserved word of the prover).\<close>

definition write_context ::
  "('s, 'd) spack \<Rightarrow> 's context_state \<Rightarrow> repo_tree option \<Rightarrow> 'd fs_step" where
  "write_context api context new_repo fs = write_interrupted 7 api context new_repo fs"

text \<open>
  \<^verbatim>\<open>read\<close>, lines 280-294. Opening a file of a directory that does not exist, or a file
  that is not there, raises \<^verbatim>\<open>IOError\<close>. The directory tree is returned as it is left.
\<close>

definition read ::
  "('s, 'd) spack \<Rightarrow> string \<Rightarrow> 'd filesystem \<Rightarrow> (error + 's context_state) \<times> 'd filesystem" where
  "read api context_name fs =
     (case write_paths api (Context context_name) of (tmp_new, context_dir, tmp_old) \<Rightarrow>
        if path_exists fs tmp_new \<or> path_exists fs tmp_old
        then (Inl (Die partial_write_msg), fs)
        else
          (case Option.bind (fs context_dir) context_yaml of
             None \<Rightarrow> (Inl (IOError (join_path context_dir ''context.yaml'')), fs)
           | Some context_dict \<Rightarrow>
               let context = from_dict context_name context_dict
               in (case Option.bind (fs context_dir) full_specs_json of
                     None \<Rightarrow> (Inl (IOError (join_path context_dir ''full_specs.json'')), fs)
                   | Some install_dict \<Rightarrow>
                       let installs = (\<lambda>x. map_option (spec_from_dict api) (install_dict x))
                       in (Inr (context\<lparr>specs_by_hash := installs\<rparr>), fs))))"

text \<open>
  The staging directory as lines 221-233 leave it: the two files, and the snapshot
  copied from \<open>new_repo\<close> or else from the committed directory when it has one.
\<close>

definition staged_dir ::
  "('s, 'd) spack \<Rightarrow> 's context_state \<Rightarrow> repo_tree option \<Rightarrow> 'd filesystem \<Rightarrow> 'd dir" where
  "staged_dir api context new_repo fs =
     Dir (Some (to_dict context))
         (Some (store_specs_by_hash api (specs_by_hash context)))
         (case new_repo of Some tree \<Rightarrow> Some tree | None \<Rightarrow> repo_at fs (path api context))
         []"

section \<open>Module-level names\<close>

text \<open>
  A Python value that a name of the module can be bound to at the places modelled here:
  a \<^verbatim>\<open>Context\<close> object, or a function. The module binds the global name
  \<^verbatim>\<open>context\<close> once, to the dispatching function defined at lines 457-470; no function
  of the module has a parameter or a local variable of that name except where it is
  assigned in the function itself.
\<close>

datatype 's pyobj = ContextObj "'s context_state" | FunctionObj string

definition module_context :: "'s pyobj" where
  "module_context = FunctionObj ''context''"

text \<open>
  \<^verbatim>\<open>write_paths(obj)\<close> and \<^verbatim>\<open>obj.repo_path()\<close> for an arbitrary value: a function
  object has neither the attribute \<^verbatim>\<open>name\<close> nor \<^verbatim>\<open>repo_path\<close>.
\<close>

definition py_write_paths :: "('s, 'd) spack \<Rightarrow> 's pyobj \<Rightarrow> error + string \<times> string \<times> string" where
  "py_write_paths api obj =
     (case obj of
        ContextObj c \<Rightarrow> Inr (write_paths api c)
      | FunctionObj f \<Rightarrow> Inl (AttributeError ''function'' ''name''))"

text \<open>
  \<^verbatim>\<open>repair\<close>, lines 247-268, with the value of the name \<^verbatim>\<open>context\<close> in line 255 as a
  parameter. The result on success is the line printed by \<^verbatim>\<open>tty.info\<close>.
\<close>

definition repair_with ::
  "('s, 'd) spack \<Rightarrow> 's pyobj \<Rightarrow> string \<Rightarrow> 'd filesystem \<Rightarrow> (error + string) \<times> 'd filesystem" where
  "repair_with api context context_name fs =
     (case py_write_paths api context of
        Inl e \<Rightarrow> (Inl e, fs)
      | Inr (tmp_new, dest, tmp_old) \<Rightarrow>
          (case (if path_exists fs tmp_old
                 then (case (if \<not> path_exists fs dest then move tmp_new dest fs
                             else rmtree tmp_old fs) of
                         (Inl e, fs') \<Rightarrow> (Inl e, fs')
                       | (Inr _, fs') \<Rightarrow> (Inr ''Previous update completed'', fs'))
                 else if path_exists fs tmp_new
                 then (Inr ''Previous update did not complete'', fs)
                 else (Inr ''Previous update may have completed'', fs)) of
             (Inl e, fs1) \<Rightarrow> (Inl e, fs1)
           | (Inr info, fs1) \<Rightarrow>
               if path_exists fs1 tmp_new
               then (case rmtree tmp_new fs1 of
                       (Inl e, fs2) \<Rightarrow> (Inl e, fs2)
                     | (Inr _, fs2) \<Rightarrow> (Inr info, fs2))
               else (Inr info, fs1)))"

text \<open>\<^verbatim>\<open>repair\<close> as the module runs it: line 255 reads the global name.\<close>

definition repair ::
  "('s, 'd) spack \<Rightarrow> string \<Rightarrow> 'd filesystem \<Rightarrow> (error + string) \<times> 'd filesystem" where
  "repair api context_name fs = repair_with api module_context context_name fs"

text \<open>
  \<^verbatim>\<open>prepare_repository\<close>, lines 334-351, as far as the contexts directory is concerned:
  the snapshot it returns is a copy of the context's snapshot, or a new empty one, with
  the directories of the packages in \<open>remove\<close> deleted (\<^verbatim>\<open>shutil.rmtree\<close> raises for
  one that is not there). The temporary directory it is built in is not modelled.
\<close>

definition prepare_repository ::
  "('s, 'd) spack \<Rightarrow> 's pyobj \<Rightarrow> string list \<Rightarrow> 'd filesystem \<Rightarrow> error + repo_tree" where
  "prepare_repository api context remove_pkgs fs =
     (case context of
        FunctionObj f \<Rightarrow> Inl (AttributeError ''function'' ''repo_path'')
      | ContextObj c \<Rightarrow>
          let new_repo = (case repo_at fs (path api c) of Some tree \<Rightarrow> tree | None \<Rightarrow> [])
          in (case List.find (\<lambda>p. p \<notin> set new_repo) remove_pkgs of
                Some p \<Rightarrow> Inl (OSError p)
              | None \<Rightarrow> Inr (filter (\<lambda>p. p \<notin> set remove_pkgs) new_repo)))"

text \<open>\<^verbatim>\<open>obj.install()\<close> for an arbitrary value.\<close>

definition py_install ::
  "('s, 'd) spack \<Rightarrow> 's pyobj \<Rightarrow> 's list \<Rightarrow> (error + unit) \<times> 's list" where
  "py_install api obj installed =
     (case obj of
        ContextObj c \<Rightarrow> install api c installed
      | FunctionObj f \<Rightarrow> (Inl (AttributeError ''function'' ''install''), installed))"

text \<open>
  \<^verbatim>\<open>context_install\<close>, lines 324-327. Line 325 binds the local name \<^verbatim>\<open>contexts\<close>;
  lines 326 and 327 read the name \<^verbatim>\<open>context\<close>, which is the global one. The state is
  the directory tree and the list of Specs the installer was invoked on.
\<close>

definition context_install ::
  "('s, 'd) spack \<Rightarrow> string \<Rightarrow> 'd filesystem \<times> 's list \<Rightarrow> (error + unit) \<times> 'd filesystem \<times> 's list" where
  "context_install api args_context w =
     (case read api args_context (fst w) of
        (Inl e, fs') \<Rightarrow> (Inl e, fs', snd w)
      | (Inr contexts, fs') \<Rightarrow>
          (case prepare_repository api module_context [] fs' of
             Inl e \<Rightarrow> (Inl e, fs', snd w)
           | Inr r \<Rightarrow>
               (case py_install api module_context (snd w) of
                  (res, installed') \<Rightarrow> (res, fs', installed'))))"

section \<open>Sequences of operations and the context invariant\<close>

text \<open>
  A sequence of calls of \<^verbatim>\<open>add\<close>, \<^verbatim>\<open>remove\<close> and \<^verbatim>\<open>concretize\<close> on one
  \<^verbatim>\<open>Context\<close> object, starting from \<^verbatim>\<open>Context(name)\<close>. A call that fails leaves the
  object as the failing statement found it, and the sequence goes on from there.
\<close>

datatype ctx_op = Add string | Remove string | Concretize

fun apply_op :: "('s, 'd) spack \<Rightarrow> 's context_state \<Rightarrow> ctx_op \<Rightarrow> 's context_state" where
  "apply_op api self (Add user_spec) = snd (add api user_spec self)"
| "apply_op api self (Remove query) = snd (remove api query self)"
| "apply_op api self Concretize = snd (concretize api self)"

definition run_ops :: "('s, 'd) spack \<Rightarrow> string \<Rightarrow> ctx_op list \<Rightarrow> 's context_state" where
  "run_ops api n ops = foldl (apply_op api) (Context n) ops"

text \<open>
  \<open>resolution_of api user_spec h\<close>: concretizing the request succeeds and gives a
  graph with hash \<open>h\<close>.
\<close>

definition resolution_of :: "('s, 'd) spack \<Rightarrow> string \<Rightarrow> string \<Rightarrow> bool" where
  "resolution_of api user_spec h =
     (case spec_concretize api (Spec api user_spec) of
        Inl e \<Rightarrow> False
      | Inr spec \<Rightarrow> dag_hash api spec = h)"

text \<open>
  The three parts of the context invariant: there are no more resolutions than
  requests; the resolutions are, position by position, those of the first requests;
  every hash among the resolutions is a key of \<open>specs_by_hash\<close>.
\<close>

definition prefix_aligned :: "('s, 'd) spack \<Rightarrow> 's context_state \<Rightarrow> bool" where
  "prefix_aligned api self =
     (length (concretized_order self) \<le> length (user_specs self) \<and>
      list_all2 (resolution_of api)
        (take (length (concretized_order self)) (user_specs self)) (concretized_order self))"

definition hashes_stored :: "'s context_state \<Rightarrow> bool" where
  "hashes_stored self = list_all (\<lambda>h. specs_by_hash self h \<noteq> None) (concretized_order self)"

definition context_invariant :: "('s, 'd) spack \<Rightarrow> 's context_state \<Rightarrow> bool" where
  "context_invariant api self = (prefix_aligned api self \<and> hashes_stored self)"

text \<open>The resolved roots of a context: the stored graphs of its resolutions, in order.\<close>

definition resolved_roots :: "'s context_state \<Rightarrow> 's list" where
  "resolved_roots self = List.map_filter (specs_by_hash self) (concretized_order self)"

text \<open>Every resolution is the key of a stored graph that has this hash.\<close>

definition roots_stored :: "('s, 'd) spack \<Rightarrow> 's context_state \<Rightarrow> bool" where
  "roots_stored api self =
     list_all (\<lambda>h. map_option (dag_hash api) (specs_by_hash self h) = Some h)
       (concretized_order self)"

text \<open>
  The nodes that \<^verbatim>\<open>_get_environment_specs\<close> meets: for each resolved root in the order
  of the resolutions, its nodes along \<open>link\<close> and \<open>run\<close> edges in traversal order.
\<close>

definition all_deps :: "('s, 'd) spack \<Rightarrow> 's context_state \<Rightarrow> 's list" where
  "all_deps api self = concat (map (traverse api [''link'', ''run'']) (resolved_roots self))"

text \<open>
  Requests of different package names never concretize to graphs of the same hash.
\<close>

definition names_separate_hashes :: "('s, 'd) spack \<Rightarrow> bool" where
  "names_separate_hashes api =
     (\<forall>u v h. resolution_of api u h \<and> resolution_of api v h \<longrightarrow>
        spec_name api (Spec api u) = spec_name api (Spec api v))"

text \<open>The package names of the requests of a context, in order.\<close>

definition request_names :: "('s, 'd) spack \<Rightarrow> 's context_state \<Rightarrow> string list" where
  "request_names api self = map (\<lambda>u. spec_name api (Spec api u)) (user_specs self)"

section \<open>A small instance of the external interface\<close>

text \<open>
  A toy package universe on which the model can be run: \<open>app-a\<close> depends on
  \<open>lib@1.0\<close>, \<open>app-b\<close> on \<open>lib@2.0\<close>, the newest \<open>lib\<close> is \<open>2.0\<close>, and the virtual
  package \<open>mpi\<close> is provided by \<open>mpich\<close>, so that the requests \<open>mpi\<close> and \<open>mpich\<close>
  concretize to the same graph. A Spec is a tree of named, versioned nodes; a request is
  parsed as \<open>name@version\<close>; the hash of a graph is its full text.
\<close>

datatype pkg = Pkg (pkg_name: string) (pkg_version: string) (pkg_deps: "pkg list")

fun pkg_text :: "pkg \<Rightarrow> string" where
  "pkg_text (Pkg n v ds) = n @ ''@'' @ v @ concat (map (\<lambda>d. ''^'' @ pkg_text d) ds)"

fun pkg_nodes :: "pkg \<Rightarrow> pkg list" where
  "pkg_nodes (Pkg n v ds) = Pkg n v ds # concat (map pkg_nodes ds)"

fun pkg_fill :: "pkg \<Rightarrow> pkg" where
  "pkg_fill (Pkg n v ds) =
     Pkg n (if v = [] then (if n = ''lib'' then ''2.0'' else if n = ''mpich'' then ''3.2'' else ''1.0'')
            else v)
         (map pkg_fill ds)"

fun pkg_relax :: "string \<Rightarrow> pkg \<Rightarrow> pkg" where
  "pkg_relax dep (Pkg n v ds) = Pkg n (if n = dep then [] else v) (map (pkg_relax dep) ds)"

definition toy_parse :: "string \<Rightarrow> pkg" where
  "toy_parse s = Pkg (takeWhile (\<lambda>c. c \<noteq> CHR ''@'') s)
                     (drop 1 (dropWhile (\<lambda>c. c \<noteq> CHR ''@'') s)) []"

definition toy_concretize :: "pkg \<Rightarrow> error + pkg" where
  "toy_concretize p =
     (let n = (if pkg_name p = ''mpi'' then ''mpich'' else pkg_name p)
      in if n \<notin> {''app-a'', ''app-b'', ''lib'', ''mpich''}
         then Inl (ExternalError (''Package '' @ n @ '' not found.''))
         else Inr (pkg_fill (Pkg n (pkg_version p)
                    (if pkg_deps p \<noteq> [] then pkg_deps p
                     else if n = ''app-a'' then [Pkg ''lib'' ''1.0'' []]
                     else if n = ''app-b'' then [Pkg ''lib'' ''2.0'' []]
                     else []))))"

definition toy_getitem :: "pkg \<Rightarrow> string \<Rightarrow> error + pkg" where
  "toy_getitem p dep =
     (case List.find (\<lambda>d. pkg_name d = dep) (pkg_nodes p) of
        None \<Rightarrow> Inl (KeyError dep)
      | Some d \<Rightarrow> Inr d)"

definition toy :: "(pkg, pkg) spack" where
  "toy = \<lparr> Spec = toy_parse,
           spec_name = pkg_name,
           spec_str = pkg_text,
           spec_format = pkg_text,
           spec_concretize = toy_concretize,
           dag_hash = pkg_text,
           traverse = (\<lambda>deptype. pkg_nodes),
           spec_contains = (\<lambda>dep p. dep \<in> pkg_name ` set (pkg_nodes p)),
           spec_getitem = toy_getitem,
           clear_concrete = (\<lambda>p. p),
           relax_versions = (\<lambda>p dep. if dep \<in> pkg_name ` set (pkg_nodes p)
                                      then Inr (pkg_relax dep p) else Inl (KeyError dep)),
           spec_to_dict = (\<lambda>p. p),
           spec_from_dict = (\<lambda>p. p),
           do_install = (\<lambda>p. Inr ()),
           var_path = ''/opt/spack/var/spack'' \<rparr>"

text \<open>The same universe without the virtual package.\<close>

definition toy_no_virtual :: "(pkg, pkg) spack" where
  "toy_no_virtual =
     toy\<lparr>spec_concretize :=
           (\<lambda>p. if pkg_name p = ''mpi'' then Inl (ExternalError ''Package mpi not found.'')
                else toy_concretize p)\<rparr>"

text \<open>
  Two states of a context named \<open>c\<close> and the directory that a completed write of each
  leaves behind; \<open>demo_fs\<close> is a contexts directory in which the older one is committed.
\<close>

definition demo_old :: "pkg context_state" where
  "demo_old = (Context ''c'')\<lparr>user_specs := [''lib'']\<rparr>"

definition demo_new :: "pkg context_state" where
  "demo_new = (Context ''c'')\<lparr>user_specs := [''lib'', ''mpich'']\<rparr>"

definition demo_dir :: "pkg context_state \<Rightarrow> pkg dir" where
  "demo_dir c = Dir (Some (to_dict c)) (Some (store_specs_by_hash toy (specs_by_hash c))) None []"

definition demo_fs :: "pkg filesystem" where
  "demo_fs = [''/opt/spack/var/spack/contexts/c'' \<mapsto> demo_dir demo_old]"

text \<open>A context named \<open>c\<close> with one request and its resolution.\<close>

definition demo_resolved :: "pkg context_state" where
  "demo_resolved = (Context ''c'')\<lparr>user_specs := [''lib''], concretized_order := [''lib@2.0''],
                      specs_by_hash := [''lib@2.0'' \<mapsto> Pkg ''lib'' ''2.0'' []]\<rparr>"

text \<open>A context named \<open>c\<close> with two resolved roots, of which the second depends on \<open>lib\<close>.\<close>

definition demo_two_roots :: "pkg context_state" where
  "demo_two_roots =
     (Context ''c'')\<lparr>user_specs := [''mpich'', ''app-a''],
        concretized_order := [''mpich@3.2'', ''app-a@1.0^lib@1.0''],
        specs_by_hash := [''mpich@3.2'' \<mapsto> Pkg ''mpich'' ''3.2'' [],
                          ''app-a@1.0^lib@1.0'' \<mapsto> Pkg ''app-a'' ''1.0'' [Pkg ''lib'' ''1.0'' []]]\<rparr>"

text \<open>
  A context named \<open>c\<close> whose two resolved roots depend on different versions of
  \<open>lib\<close> and on the same \<open>mpich\<close>.
\<close>

definition demo_shared :: "pkg context_state" where
  "demo_shared =
     (Context ''c'')\<lparr>user_specs := [''app-a'', ''app-b''],
        concretized_order := [''app-a@1.0^lib@1.0^mpich@3.2'', ''app-b@1.0^lib@2.0^mpich@3.2''],
        specs_by_hash :=
          [''app-a@1.0^lib@1.0^mpich@3.2'' \<mapsto>
             Pkg ''app-a'' ''1.0'' [Pkg ''lib'' ''1.0'' [], Pkg ''mpich'' ''3.2'' []],
           ''app-b@1.0^lib@2.0^mpich@3.2'' \<mapsto>
             Pkg ''app-b'' ''1.0'' [Pkg ''lib'' ''2.0'' [], Pkg ''mpich'' ''3.2'' []]]\<rparr>"

section \<open>Evaluating the small instance\<close>

lemma toy_simps:
  "Spec toy = toy_parse" "spec_name toy = pkg_name" "spec_str toy = pkg_text"
  "spec_format toy = pkg_text" "spec_concretize toy = toy_concretize" "dag_hash toy = pkg_text"
  "traverse toy = (\<lambda>deptype. pkg_nodes)" "spec_getitem toy = toy_getitem"
  "clear_concrete toy = (\<lambda>p. p)" "spec_to_dict toy = (\<lambda>p. p)" "spec_from_dict toy = (\<lambda>p. p)"
  "do_install toy = (\<lambda>p. Inr ())" "var_path toy = ''/opt/spack/var/spack''"
  "spec_contains toy = (\<lambda>dep p. dep \<in> pkg_name ` set (pkg_nodes p))"
  "relax_versions toy = (\<lambda>p dep. if dep \<in> pkg_name ` set (pkg_nodes p)
                                      then Inr (pkg_relax dep p) else Inl (KeyError dep))"
  by (simp_all add: toy_def)

section \<open>Request management\<close>

text \<open>
  Claim C8. \<^verbatim>\<open>add(request)\<close> dies with the message that the package was already added
  whenever some request of the context has the same package name, and then the context
  is as before; otherwise it succeeds and the request is appended at the end of
  \<open>user_specs\<close>, nothing else changing.
\<close>

theorem add_duplicate_or_append:
  "add api user_spec self =
     (if \<exists>x \<in> set (user_specs self).
           spec_name api (Spec api x) = spec_name api (Spec api user_spec)
      then (Inl (Die (''Package '' @ spec_name api (Spec api user_spec) @
                      '' was already added to '' @ name self)), self)
      else (Inr (), self\<lparr>user_specs := user_specs self @ [user_spec]\<rparr>))"
  by (auto simp: add_def Let_def filter_empty_conv)

theorem add_duplicate_or_append_witness:
  "add toy ''lib@1.0'' (Context ''c'') = (Inr (), (Context ''c'')\<lparr>user_specs := [''lib@1.0'']\<rparr>) \<and>
   add toy ''lib@2.0'' ((Context ''c'')\<lparr>user_specs := [''lib@1.0'']\<rparr>) =
     (Inl (Die ''Package lib was already added to c''), (Context ''c'')\<lparr>user_specs := [''lib@1.0'']\<rparr>)"
  using add_duplicate_or_append [of toy "''lib@1.0''" "Context ''c''"]
        add_duplicate_or_append [of toy "''lib@2.0''" "(Context ''c'')\<lparr>user_specs := [''lib@1.0'']\<rparr>"]
  by (simp add: toy_simps toy_parse_def Context_def)

lemma match_loop_none:
  "(\<forall>x \<in> set xs. spec_name api (Spec api x) \<noteq> spec_name api q) \<Longrightarrow> match_loop api q i xs = - 1"
  by (induction xs arbitrary: i) auto

lemma match_loop_some:
  "\<exists>x \<in> set xs. spec_name api (Spec api x) = spec_name api q \<Longrightarrow>
   \<exists>k < length xs. match_loop api q i xs = int (i + k) \<and>
      spec_name api (Spec api (xs ! k)) = spec_name api q \<and>
      (\<forall>j < k. spec_name api (Spec api (xs ! j)) \<noteq> spec_name api q)"
proof (induction xs arbitrary: i)
  case Nil
  then show ?case by simp
next
  case (Cons x xs)
  show ?case
  proof (cases "spec_name api (Spec api x) = spec_name api q")
    case True
    then show ?thesis by (intro exI [of _ 0]) simp
  next
    case False
    with Cons.prems have "\<exists>x \<in> set xs. spec_name api (Spec api x) = spec_name api q" by simp
    from Cons.IH [OF this, of "Suc i"] obtain k where k: "k < length xs"
      "match_loop api q (Suc i) xs = int (Suc i + k)"
      "spec_name api (Spec api (xs ! k)) = spec_name api q"
      "\<forall>j < k. spec_name api (Spec api (xs ! j)) \<noteq> spec_name api q" by blast
    show ?thesis
    proof (intro exI [of _ "Suc k"] conjI allI impI)
      fix j assume "j < Suc k"
      then show "spec_name api (Spec api ((x # xs) ! j)) \<noteq> spec_name api q"
        using False k(4) by (cases j) auto
    qed (use False k in auto)
  qed
qed

text \<open>
  Claim C9. \<^verbatim>\<open>remove(query)\<close> of a package name that no request of the context has
  dies with the message \<^verbatim>\<open>Not found\<close>, and the whole context (requests, resolutions,
  graphs by hash and the rest) is as before.
\<close>

theorem remove_absent_not_found:
  assumes "\<forall>x \<in> set (user_specs self).
             spec_name api (Spec api x) \<noteq> spec_name api (Spec api query)"
  shows "remove api query self =
           (Inl (Die (''Not found: '' @ spec_str api (Spec api query))), self)"
  using match_loop_none [OF assms, of 0] by (simp add: remove_def)

theorem remove_absent_not_found_witness:
  "remove toy ''zlib'' ((Context ''c'')\<lparr>user_specs := [''lib@1.0'']\<rparr>) =
     (Inl (Die ''Not found: zlib@''), (Context ''c'')\<lparr>user_specs := [''lib@1.0'']\<rparr>)"
  using remove_absent_not_found [of "(Context ''c'')\<lparr>user_specs := [''lib@1.0'']\<rparr>" toy "''zlib''"]
  by (simp add: toy_simps toy_parse_def Context_def)

section \<open>Incremental concretization\<close>




section \<open>Persistence\<close>

lemma write_paths_distinct:
  assumes "write_paths api context = (tmp_new, dest, tmp_old)"
  shows "tmp_new \<noteq> dest" "tmp_new \<noteq> tmp_old" "dest \<noteq> tmp_old" "dest = path api context"
  using assms by (auto simp: write_paths_def path_def join_path_def Let_def)

lemma write_paths_name:
  "write_paths api (Context (name context) :: 's context_state) =
   write_paths api (context :: 's context_state)"
  by (simp add: write_paths_def path_def Context_def)

lemma toy_paths:
  "name c = ''c'' \<Longrightarrow> write_paths toy c =
     (''/opt/spack/var/spack/contexts/_c'', ''/opt/spack/var/spack/contexts/c'',
      ''/opt/spack/var/spack/contexts/.c'')"
  by (simp add: write_paths_def path_def db_dirname_def join_path_def toy_simps)

lemma read_fs_unchanged: "snd (read api n fs) = fs"
  by (simp add: read_def Let_def split: prod.splits option.splits)

text \<open>The directory tree after the first four, the first five and all statements of a write.\<close>

lemma write_staged:
  assumes "write_paths api context = (tmp_new, dest, tmp_old)"
      and "\<not> path_exists fs tmp_new" "\<not> path_exists fs tmp_old"
  shows "write_interrupted 4 api context new_repo fs =
           (Inr (), fs(tmp_new \<mapsto> staged_dir api context new_repo fs))"
proof -
  note d = write_paths_distinct [OF assms(1)]
  show ?thesis
    using assms d
    by (cases new_repo)
       (auto simp: write_interrupted_def write_steps_def path_exists_def mkdirp_def
          write_full_specs_def write_context_yaml_def copytree_repo_def repo_at_def
          staged_dir_def split: option.splits)
qed

lemma write_parked:
  assumes "write_paths api context = (tmp_new, dest, tmp_old)"
      and "\<not> path_exists fs tmp_new" "\<not> path_exists fs tmp_old"
  shows "write_interrupted 5 api context new_repo fs =
           (Inr (), case fs dest of
                      None \<Rightarrow> fs(tmp_new \<mapsto> staged_dir api context new_repo fs)
                    | Some d \<Rightarrow> (fs(tmp_new \<mapsto> staged_dir api context new_repo fs, dest := None))
                                  (tmp_old \<mapsto> d))"
proof -
  note d = write_paths_distinct [OF assms(1)]
  show ?thesis
    using assms d
    by (cases new_repo)
       (auto simp: write_interrupted_def write_steps_def path_exists_def mkdirp_def
          write_full_specs_def write_context_yaml_def copytree_repo_def repo_at_def
          staged_dir_def move_def split: option.splits)
qed

lemma write_committed:
  assumes "write_paths api context = (tmp_new, dest, tmp_old)"
      and "\<not> path_exists fs tmp_new" "\<not> path_exists fs tmp_old"
  shows "write_context api context new_repo fs =
           (Inr (), fs(dest \<mapsto> staged_dir api context new_repo fs))"
proof -
  note d = write_paths_distinct [OF assms(1)]
  have a: "fs(tmp_new := None) = fs" "fs(tmp_old := None) = fs"
    using assms(2,3) by (auto simp: path_exists_def)
  show ?thesis
    using assms d a
    by (cases new_repo)
       (auto simp: write_context_def write_interrupted_def write_steps_def path_exists_def
          mkdirp_def write_full_specs_def write_context_yaml_def copytree_repo_def repo_at_def
          staged_dir_def move_def rmtree_def fun_upd_twist split: option.splits)
qed

lemma read_staged_dir:
  assumes "write_paths api context = (tmp_new, dest, tmp_old)"
      and "\<not> path_exists fs tmp_new" "\<not> path_exists fs tmp_old"
      and "fs dest = Some (staged_dir api context new_repo fs0)"
      and "\<forall>s \<in> ran (specs_by_hash context). spec_from_dict api (spec_to_dict api s) = s"
  shows "read api (name context) fs = (Inr context, fs)"
proof -
  have p: "write_paths api (Context (name context) :: 'a context_state) = (tmp_new, dest, tmp_old)"
    using assms(1) by (simp add: write_paths_name)
  have "map_option (spec_from_dict api) (store_specs_by_hash api (specs_by_hash context) x) =
        specs_by_hash context x" for x
    using assms(5) by (cases "specs_by_hash context x") (auto simp: store_specs_by_hash_def ran_def)
  then have m: "(\<lambda>x. map_option (spec_from_dict api)
                   (store_specs_by_hash api (specs_by_hash context) x)) = specs_by_hash context"
    by (rule ext)
  show ?thesis
    using p assms(2,3,4) m
    by (simp add: read_def staged_dir_def from_dict_def to_dict_def Context_def)
qed

text \<open>
  Claim C5. When neither the staging nor the rollback directory of the context's name
  exists, and \<^verbatim>\<open>Spec.from_dict\<close> gives back every stored graph from its
  \<^verbatim>\<open>to_dict\<close>, writing a context succeeds and reading the name back returns a context
  equal to the one written in every field: name, requests, resolutions, graphs by
  hash with their keys, pinned libraries and pinned binaries.
\<close>

theorem write_read_roundtrip:
  assumes "write_paths api context = (tmp_new, dest, tmp_old)"
      and "\<not> path_exists fs tmp_new" "\<not> path_exists fs tmp_old"
      and "\<forall>s \<in> ran (specs_by_hash context). spec_from_dict api (spec_to_dict api s) = s"
  shows "fst (write_context api context new_repo fs) = Inr () \<and>
         read api (name context) (snd (write_context api context new_repo fs)) =
           (Inr context, snd (write_context api context new_repo fs))"
proof -
  let ?fs' = "fs(dest \<mapsto> staged_dir api context new_repo fs)"
  note d = write_paths_distinct [OF assms(1)]
  have w: "write_context api context new_repo fs = (Inr (), ?fs')"
    by (rule write_committed [OF assms(1-3)])
  have "read api (name context) ?fs' = (Inr context, ?fs')"
  proof (rule read_staged_dir [OF assms(1)])
    show "\<not> path_exists ?fs' tmp_new" "\<not> path_exists ?fs' tmp_old"
      using assms(2,3) d by (auto simp: path_exists_def)
    show "?fs' dest = Some (staged_dir api context new_repo fs)" by simp
  qed (rule assms(4))
  with w show ?thesis by simp
qed

theorem write_read_roundtrip_witness:
  "fst (write_context toy demo_resolved None demo_fs) = Inr () \<and>
   read toy ''c'' (snd (write_context toy demo_resolved None demo_fs)) =
     (Inr demo_resolved, snd (write_context toy demo_resolved None demo_fs))"
proof -
  have n: "name demo_resolved = ''c''" by (simp add: demo_resolved_def Context_def)
  have a: "\<not> path_exists demo_fs ''/opt/spack/var/spack/contexts/_c''"
          "\<not> path_exists demo_fs ''/opt/spack/var/spack/contexts/.c''"
    by (simp_all add: path_exists_def demo_fs_def)
  have b: "\<forall>s \<in> ran (specs_by_hash demo_resolved). spec_from_dict toy (spec_to_dict toy s) = s"
    by (simp add: toy_simps)
  from write_read_roundtrip [OF toy_paths [OF n] a b, of None] n show ?thesis by simp
qed

text \<open>
  Claim C7. Whenever the staging directory or the rollback directory of a context's
  name exists, \<^verbatim>\<open>read\<close> and \<^verbatim>\<open>write\<close> both die with the partial-write message and
  leave the directory tree as it is. When neither exists and the committed directory is
  absent, \<^verbatim>\<open>read\<close> fails on opening \<^verbatim>\<open>context.yaml\<close> in it (the uncaught
  \<^verbatim>\<open>IOError\<close> is how the code reports a context that is not there), again without
  changing anything.
\<close>

theorem partial_write_state_rejected:
  assumes "write_paths api context = (tmp_new, dest, tmp_old)"
  shows "(path_exists fs tmp_new \<or> path_exists fs tmp_old \<longrightarrow>
            read api (name context) fs = (Inl (Die partial_write_msg), fs) \<and>
            write_context api context new_repo fs = (Inl (Die partial_write_msg), fs)) \<and>
         (\<not> path_exists fs tmp_new \<and> \<not> path_exists fs tmp_old \<and> \<not> path_exists fs dest \<longrightarrow>
            read api (name context) fs = (Inl (IOError (join_path dest ''context.yaml'')), fs))"
proof -
  have p: "write_paths api (Context (name context) :: 'a context_state) = (tmp_new, dest, tmp_old)"
    using assms by (simp add: write_paths_name)
  show ?thesis
    using assms p
    by (auto simp add: read_def write_context_def write_interrupted_def path_exists_def)
qed

theorem partial_write_state_rejected_witness:
  "read toy ''c'' [''/opt/spack/var/spack/contexts/_c'' \<mapsto> Dir None None None []] =
     (Inl (Die partial_write_msg), [''/opt/spack/var/spack/contexts/_c'' \<mapsto> Dir None None None []]) \<and>
   write_context toy (Context ''c'') None
       [''/opt/spack/var/spack/contexts/_c'' \<mapsto> Dir None None None []] =
     (Inl (Die partial_write_msg), [''/opt/spack/var/spack/contexts/_c'' \<mapsto> Dir None None None []]) \<and>
   read toy ''c'' Map.empty =
     (Inl (IOError ''/opt/spack/var/spack/contexts/c/context.yaml''), Map.empty)"
proof -
  have n: "name (Context ''c'' :: pkg context_state) = ''c''" by (simp add: Context_def)
  from partial_write_state_rejected [OF toy_paths [OF n],
          of "[''/opt/spack/var/spack/contexts/_c'' \<mapsto> Dir None None None []]" None]
       partial_write_state_rejected [OF toy_paths [OF n], of Map.empty None]
  show ?thesis by (simp add: path_exists_def Context_def join_path_def)
qed

section \<open>The install command\<close>

text \<open>When it is reached, the installer is run on every resolved root in order.\<close>

lemma install_runs_installer:
  "install toy demo_resolved [] = (Inr (), [Pkg ''lib'' ''2.0'' []])"
  by (simp add: install_def demo_resolved_def Context_def toy_simps)

text \<open>
  Claim C10. For every context name and every state of the contexts directory, the
  handler of the \<^verbatim>\<open>install\<close> command ends in an error: the one \<^verbatim>\<open>read\<close> raises, or
  else the \<^verbatim>\<open>AttributeError\<close> of \<^verbatim>\<open>context.repo_path()\<close> in
  \<^verbatim>\<open>prepare_repository\<close>, because the name \<^verbatim>\<open>context\<close> is the module's function and
  not the context that was read. The installer has been invoked on nothing: the list of
  installed Specs and the directory tree are as before.
\<close>

theorem context_install_always_fails:
  "context_install api args_context (fs, installed) =
     (Inl (case fst (read api args_context fs) of
             Inl e \<Rightarrow> e
           | Inr contexts \<Rightarrow> AttributeError ''function'' ''repo_path''),
      fs, installed)"
proof (cases "read api args_context fs")
  case (Pair r fs')
  with read_fs_unchanged [of api args_context fs] have "fs' = fs" by simp
  with Pair show ?thesis
    by (cases r) (simp_all add: context_install_def prepare_repository_def module_context_def)
qed

section \<open>Repair after a crash\<close>

text \<open>As the module runs it, \<^verbatim>\<open>repair\<close> raises in line 255 and changes nothing.\<close>

lemma repair_always_raises:
  "repair api context_name fs = (Inl (AttributeError ''function'' ''name''), fs)"
  by (simp add: repair_def repair_with_def py_write_paths_def module_context_def)

text \<open>
  With the name \<^verbatim>\<open>context\<close> of line 255 bound to the context \<open>c\<close> of line 254: after a
  crash between parking and committing, one run finishes the commit and leaves the
  rollback directory in place, so that \<^verbatim>\<open>read\<close> still dies; after a crash before
  parking, one run discards the staging directory.
\<close>

lemma repair_with_context_after_park:
  assumes "write_paths api (Context n :: 's context_state) = (tmp_new, dest, tmp_old)"
      and "fs tmp_new = Some d_new" "fs tmp_old = Some d_old" "fs dest = None"
  shows "repair_with api (ContextObj (Context n :: 's context_state)) n fs =
           (Inr ''Previous update completed'', (fs(tmp_new := None))(dest \<mapsto> d_new))"
    and "read api n ((fs(tmp_new := None))(dest \<mapsto> d_new)) =
           (Inl (Die partial_write_msg), (fs(tmp_new := None))(dest \<mapsto> d_new))"
proof -
  note d = write_paths_distinct [OF assms(1)]
  show "repair_with api (ContextObj (Context n :: 's context_state)) n fs =
           (Inr ''Previous update completed'', (fs(tmp_new := None))(dest \<mapsto> d_new))"
    using assms d
    by (simp add: repair_with_def py_write_paths_def path_exists_def move_def domIff)
  show "read api n ((fs(tmp_new := None))(dest \<mapsto> d_new)) =
           (Inl (Die partial_write_msg), (fs(tmp_new := None))(dest \<mapsto> d_new))"
    using assms d by (simp add: read_def path_exists_def domIff)
qed

lemma repair_with_context_before_park:
  assumes "write_paths api (Context n :: 's context_state) = (tmp_new, dest, tmp_old)"
      and "fs tmp_new = Some d_new" "fs tmp_old = None"
  shows "repair_with api (ContextObj (Context n :: 's context_state)) n fs =
           (Inr ''Previous update did not complete'', fs(tmp_new := None))"
  using assms write_paths_distinct [OF assms(1)]
  by (simp add: repair_with_def py_write_paths_def path_exists_def rmtree_def domIff)

text \<open>
  Claim C1, on the code. The context \<open>c\<close> is committed with the older state and a write
  of the newer state crashes. Stopped after the committed directory was parked (five
  statements): staging and rollback directory exist, the committed one is missing;
  \<^verbatim>\<open>repair\<close> raises and changes nothing, and \<^verbatim>\<open>read\<close> dies with the partial-write
  message instead of returning the newer state. Stopped before parking (four statements):
  staging and committed directory exist; \<^verbatim>\<open>repair\<close> raises again, and \<^verbatim>\<open>read\<close> dies
  instead of returning the older state.
\<close>

theorem repair_after_crash_raises:
  "(let r = write_interrupted 5 toy demo_new None demo_fs; fs1 = snd r in
      fst r = Inr () \<and>
      fs1 ''/opt/spack/var/spack/contexts/_c'' = Some (demo_dir demo_new) \<and>
      fs1 ''/opt/spack/var/spack/contexts/.c'' = Some (demo_dir demo_old) \<and>
      fs1 ''/opt/spack/var/spack/contexts/c'' = None \<and>
      repair toy ''c'' fs1 = (Inl (AttributeError ''function'' ''name''), fs1) \<and>
      read toy ''c'' fs1 = (Inl (Die partial_write_msg), fs1)) \<and>
   (let r = write_interrupted 4 toy demo_new None demo_fs; fs1 = snd r in
      fst r = Inr () \<and>
      fs1 ''/opt/spack/var/spack/contexts/_c'' = Some (demo_dir demo_new) \<and>
      fs1 ''/opt/spack/var/spack/contexts/.c'' = None \<and>
      fs1 ''/opt/spack/var/spack/contexts/c'' = Some (demo_dir demo_old) \<and>
      repair toy ''c'' fs1 = (Inl (AttributeError ''function'' ''name''), fs1) \<and>
      read toy ''c'' fs1 = (Inl (Die partial_write_msg), fs1))"
proof -
  have n: "name demo_new = ''c''" by (simp add: demo_new_def Context_def)
  have n': "name (Context ''c'' :: pkg context_state) = ''c''" by (simp add: Context_def)
  have a: "\<not> path_exists demo_fs ''/opt/spack/var/spack/contexts/_c''"
          "\<not> path_exists demo_fs ''/opt/spack/var/spack/contexts/.c''"
    by (simp_all add: path_exists_def demo_fs_def)
  have s: "staged_dir toy demo_new None demo_fs = demo_dir demo_new"
    by (simp add: staged_dir_def demo_dir_def repo_at_def path_def db_dirname_def join_path_def
          toy_simps demo_new_def Context_def demo_fs_def)
  have c: "demo_fs ''/opt/spack/var/spack/contexts/c'' = Some (demo_dir demo_old)"
    by (simp add: demo_fs_def)
  have c': "demo_fs ''/opt/spack/var/spack/contexts/.c'' = None"
    by (simp add: demo_fs_def)
  have w5: "write_interrupted 5 toy demo_new None demo_fs =
              (Inr (), (demo_fs(''/opt/spack/var/spack/contexts/_c'' \<mapsto> demo_dir demo_new,
                                ''/opt/spack/var/spack/contexts/c'' := None))
                         (''/opt/spack/var/spack/contexts/.c'' \<mapsto> demo_dir demo_old))"
    using write_parked [OF toy_paths [OF n] a, of None] by (simp add: s c)
  have w4: "write_interrupted 4 toy demo_new None demo_fs =
              (Inr (), demo_fs(''/opt/spack/var/spack/contexts/_c'' \<mapsto> demo_dir demo_new))"
    using write_staged [OF toy_paths [OF n] a, of None] by (simp add: s)
  have r5: "read toy ''c'' (snd (write_interrupted 5 toy demo_new None demo_fs)) =
              (Inl (Die partial_write_msg), snd (write_interrupted 5 toy demo_new None demo_fs))"
    by (simp add: w5 read_def toy_paths [OF n'] path_exists_def)
  have r4: "read toy ''c'' (snd (write_interrupted 4 toy demo_new None demo_fs)) =
              (Inl (Die partial_write_msg), snd (write_interrupted 4 toy demo_new None demo_fs))"
    by (simp add: w4 read_def toy_paths [OF n'] path_exists_def)
  have p5: "snd (write_interrupted 5 toy demo_new None demo_fs) ''/opt/spack/var/spack/contexts/_c'' =
              Some (demo_dir demo_new)"
           "snd (write_interrupted 5 toy demo_new None demo_fs) ''/opt/spack/var/spack/contexts/.c'' =
              Some (demo_dir demo_old)"
           "snd (write_interrupted 5 toy demo_new None demo_fs) ''/opt/spack/var/spack/contexts/c'' =
              None"
           "fst (write_interrupted 5 toy demo_new None demo_fs) = Inr ()"
    by (simp_all add: w5)
  have p4: "snd (write_interrupted 4 toy demo_new None demo_fs) ''/opt/spack/var/spack/contexts/_c'' =
              Some (demo_dir demo_new)"
           "snd (write_interrupted 4 toy demo_new None demo_fs) ''/opt/spack/var/spack/contexts/.c'' =
              None"
           "snd (write_interrupted 4 toy demo_new None demo_fs) ''/opt/spack/var/spack/contexts/c'' =
              Some (demo_dir demo_old)"
           "fst (write_interrupted 4 toy demo_new None demo_fs) = Inr ()"
    by (simp_all add: w4 c c')
  show ?thesis
    unfolding Let_def by (intro conjI r5 r4 p5 p4 repair_always_raises)
qed

section \<open>Targeted dependency upgrade\<close>

lemma upgrade_loop_result:
  assumes "upgrade_loop api dep False hs no nd ms self = (Inr (no', nd', ms'), self')"
      and "\<forall>h \<in> set hs. \<exists>g. specs_by_hash self h = Some g \<and> dag_hash api g = h \<and> g \<in> G"
      and "\<forall>g \<in> G. \<forall>ns. upgrade_dependency_version api g dep = Inr ns \<longrightarrow> ns \<in> G"
      and "inj_on (dag_hash api) G"
  shows "\<exists>os ds. no' = no @ os \<and> nd' = nd @ ds \<and> length os = length hs \<and>
           (\<forall>i < length hs. \<forall>g. specs_by_hash self (hs ! i) = Some g \<longrightarrow>
                \<not> spec_contains api dep g \<longrightarrow> os ! i = hs ! i) \<and>
           map Inr ds =
             map (\<lambda>g. case upgrade_dependency_version api g dep of
                         Inl e \<Rightarrow> Inl e
                       | Inr ns \<Rightarrow> spec_getitem api ns dep)
                 (filter (spec_contains api dep) (map (\<lambda>h. the (specs_by_hash self h)) hs))"
  using assms(1,2)
proof (induction hs arbitrary: no nd ms self)
  case Nil
  then show ?case by simp
next
  case (Cons h hs)
  from Cons.prems(2) obtain g where g: "specs_by_hash self h = Some g" "dag_hash api g = h" "g \<in> G"
    by auto
  show ?case
  proof (cases "spec_contains api dep g")
    case False
    with Cons.prems(1) g have run: "upgrade_loop api dep False hs (no @ [h]) nd ms self =
        (Inr (no', nd', ms'), self')" by simp
    from Cons.prems(2) have st: "\<forall>h \<in> set hs. \<exists>g. specs_by_hash self h = Some g \<and>
        dag_hash api g = h \<and> g \<in> G" by simp
    from Cons.IH [OF run st] obtain os ds where r:
      "no' = (no @ [h]) @ os" "nd' = nd @ ds" "length os = length hs"
      "\<forall>i < length hs. \<forall>g. specs_by_hash self (hs ! i) = Some g \<longrightarrow>
          \<not> spec_contains api dep g \<longrightarrow> os ! i = hs ! i"
      "map Inr ds =
         map (\<lambda>g. case upgrade_dependency_version api g dep of
                     Inl e \<Rightarrow> Inl e | Inr ns \<Rightarrow> spec_getitem api ns dep)
             (filter (spec_contains api dep) (map (\<lambda>h. the (specs_by_hash self h)) hs))"
      by blast
    have nth: "\<forall>i < length (h # hs). \<forall>g. specs_by_hash self ((h # hs) ! i) = Some g \<longrightarrow>
          \<not> spec_contains api dep g \<longrightarrow> (h # os) ! i = (h # hs) ! i"
    proof (intro allI impI)
      fix i g' assume "i < length (h # hs)" "specs_by_hash self ((h # hs) ! i) = Some g'"
        "\<not> spec_contains api dep g'"
      then show "(h # os) ! i = (h # hs) ! i" using r(4) by (cases i) auto
    qed
    show ?thesis
      by (rule exI [of _ "h # os"], rule exI [of _ ds]) (use r nth g False in simp)
  next
    case True
    from Cons.prems(1) g True obtain ns where ns: "upgrade_dependency_version api g dep = Inr ns"
      by (cases "upgrade_dependency_version api g dep") auto
    let ?self1 = "self\<lparr>specs_by_hash := (specs_by_hash self)(dag_hash api ns \<mapsto> ns)\<rparr>"
    from Cons.prems(1) g True ns obtain d where d: "spec_getitem api ns dep = Inr d"
      by (cases "spec_getitem api ns dep") (auto simp: Let_def)
    from Cons.prems(1) g True ns d have run:
      "upgrade_loop api dep False hs (no @ [dag_hash api ns]) (nd @ [d]) ms ?self1 =
         (Inr (no', nd', ms'), self')" by (simp add: Let_def)
    from assms(3) g(3) ns have nsG: "ns \<in> G" by blast
    have same: "specs_by_hash ?self1 h' = specs_by_hash self h'" if "h' \<in> set hs" for h'
    proof -
      from that Cons.prems(2) obtain g' where g': "specs_by_hash self h' = Some g'"
        "dag_hash api g' = h'" "g' \<in> G" by auto
      show ?thesis
      proof (cases "h' = dag_hash api ns")
        case True
        with g' nsG assms(4) have "g' = ns" by (auto dest: inj_onD)
        with g' True show ?thesis by simp
      next
        case False
        then show ?thesis by simp
      qed
    qed
    with Cons.prems(2) have st: "\<forall>h \<in> set hs. \<exists>g. specs_by_hash ?self1 h = Some g \<and>
        dag_hash api g = h \<and> g \<in> G" by simp
    from Cons.IH [OF run st] obtain os ds where r:
      "no' = (no @ [dag_hash api ns]) @ os" "nd' = (nd @ [d]) @ ds" "length os = length hs"
      "\<forall>i < length hs. \<forall>g. specs_by_hash ?self1 (hs ! i) = Some g \<longrightarrow>
          \<not> spec_contains api dep g \<longrightarrow> os ! i = hs ! i"
      "map Inr ds =
         map (\<lambda>g. case upgrade_dependency_version api g dep of
                     Inl e \<Rightarrow> Inl e | Inr ns \<Rightarrow> spec_getitem api ns dep)
             (filter (spec_contains api dep) (map (\<lambda>h. the (specs_by_hash ?self1 h)) hs))"
      by blast
    have m: "map (\<lambda>h. the (specs_by_hash ?self1 h)) hs = map (\<lambda>h. the (specs_by_hash self h)) hs"
      using same by (intro map_cong) auto
    have nth: "\<forall>i < length (h # hs). \<forall>g. specs_by_hash self ((h # hs) ! i) = Some g \<longrightarrow>
          \<not> spec_contains api dep g \<longrightarrow> (dag_hash api ns # os) ! i = (h # hs) ! i"
    proof (intro allI impI)
      fix i g' assume a: "i < length (h # hs)" "specs_by_hash self ((h # hs) ! i) = Some g'"
        "\<not> spec_contains api dep g'"
      show "(dag_hash api ns # os) ! i = (h # hs) ! i"
      proof (cases i)
        case 0
        with a g True show ?thesis by simp
      next
        case (Suc j)
        with a have j: "j < length hs" "specs_by_hash self (hs ! j) = Some g'" by auto
        then have "specs_by_hash ?self1 (hs ! j) = Some g'" using same [of "hs ! j"] by simp
        with r(4) j a(3) Suc show ?thesis by simp
      qed
    qed
    note r5 = r(5) [unfolded m]
    show ?thesis
      by (rule exI [of _ "dag_hash api ns # os"], rule exI [of _ "d # ds"])
         (use r(1-3) r5 nth g True ns d in simp)
  qed
qed

lemma map_filter_stored:
  "\<forall>h \<in> set hs. m h \<noteq> None \<Longrightarrow> List.map_filter m hs = map (\<lambda>h. the (m h)) hs"
  by (induction hs) (auto simp: List.map_filter_simps)

text \<open>
  Claim C6. Let \<^verbatim>\<open>upgrade_dependency(dep_name, dry_run=False)\<close> return on a context
  whose resolutions are keys of stored graphs with these hashes, and let the hash tell
  apart the graphs involved (a set \<open>G\<close> that holds the resolved roots and their
  upgrades). Then the new resolutions have the old length, every position whose
  root does not contain \<open>dep_name\<close> keeps its hash, and the returned value is the
  \<open>dep_name\<close> node of the upgrade of the first root that contains \<open>dep_name\<close>, or
  \<^verbatim>\<open>None\<close> when no root contains it.
\<close>

theorem upgrade_dependency_untouched_roots:
  assumes "upgrade_dependency api dep_name False self = (Inr (ret, msgs), self')"
      and "roots_stored api self"
      and "set (resolved_roots self) \<subseteq> G"
      and "\<forall>g \<in> G. \<forall>ns. upgrade_dependency_version api g dep_name = Inr ns \<longrightarrow> ns \<in> G"
      and "inj_on (dag_hash api) G"
  shows "length (concretized_order self') = length (concretized_order self) \<and>
         (\<forall>i < length (concretized_order self). \<forall>g.
             specs_by_hash self (concretized_order self ! i) = Some g \<longrightarrow>
             \<not> spec_contains api dep_name g \<longrightarrow>
             concretized_order self' ! i = concretized_order self ! i) \<and>
         (case filter (spec_contains api dep_name) (resolved_roots self) of
            [] \<Rightarrow> ret = None
          | g # _ \<Rightarrow>
              (case upgrade_dependency_version api g dep_name of
                 Inl e \<Rightarrow> False
               | Inr new_spec \<Rightarrow>
                   (case spec_getitem api new_spec dep_name of
                      Inl e \<Rightarrow> False
                    | Inr new_dep \<Rightarrow> ret = Some new_dep)))"
proof -
  let ?hs = "concretized_order self"
  from assms(1) obtain no nd ms self1 where
    run: "upgrade_loop api dep_name False ?hs [] [] [] self = (Inr (no, nd, ms), self1)" and
    res: "ret = (case nd of [] \<Rightarrow> None | d # _ \<Rightarrow> Some d)" "self' = self1\<lparr>concretized_order := no\<rparr>"
    by (auto simp: upgrade_dependency_def split: prod.splits sum.splits)
  from assms(2) have ne: "\<forall>h \<in> set ?hs. specs_by_hash self h \<noteq> None"
    by (auto simp: roots_stored_def list_all_iff)
  have roots: "resolved_roots self = map (\<lambda>h. the (specs_by_hash self h)) ?hs"
    unfolding resolved_roots_def by (rule map_filter_stored [OF ne])
  have st: "\<forall>h \<in> set ?hs. \<exists>g. specs_by_hash self h = Some g \<and> dag_hash api g = h \<and> g \<in> G"
  proof
    fix h assume h: "h \<in> set ?hs"
    with assms(2) obtain g where g: "specs_by_hash self h = Some g" "dag_hash api g = h"
      by (auto simp: roots_stored_def list_all_iff)
    with h have "g \<in> set (resolved_roots self)" by (force simp: roots)
    with assms(3) g show "\<exists>g. specs_by_hash self h = Some g \<and> dag_hash api g = h \<and> g \<in> G"
      by auto
  qed
  from upgrade_loop_result [OF run st assms(4,5)] obtain ds where r:
    "nd = ds" "length no = length ?hs"
    "\<forall>i < length ?hs. \<forall>g. specs_by_hash self (?hs ! i) = Some g \<longrightarrow>
        \<not> spec_contains api dep_name g \<longrightarrow> no ! i = ?hs ! i"
    "map Inr ds =
       map (\<lambda>g. case upgrade_dependency_version api g dep_name of
                   Inl e \<Rightarrow> Inl e | Inr ns \<Rightarrow> spec_getitem api ns dep_name)
           (filter (spec_contains api dep_name) (resolved_roots self))"
    by (auto simp: roots)
  have first: "case filter (spec_contains api dep_name) (resolved_roots self) of
            [] \<Rightarrow> ret = None
          | g # _ \<Rightarrow>
              (case upgrade_dependency_version api g dep_name of
                 Inl e \<Rightarrow> False
               | Inr new_spec \<Rightarrow>
                   (case spec_getitem api new_spec dep_name of
                      Inl e \<Rightarrow> False
                    | Inr new_dep \<Rightarrow> ret = Some new_dep))"
  proof (cases "filter (spec_contains api dep_name) (resolved_roots self)")
    case Nil
    with r(4) have "ds = []" by simp
    with res(1) r(1) Nil show ?thesis by simp
  next
    case (Cons g gs)
    with r(4) obtain d ds' where ds: "ds = d # ds'"
      "Inr d = (case upgrade_dependency_version api g dep_name of
                  Inl e \<Rightarrow> Inl e | Inr ns \<Rightarrow> spec_getitem api ns dep_name)"
      by (cases ds) auto
    with res(1) r(1) Cons show ?thesis
      by (auto split: sum.splits)
  qed
  from res(2) r(2,3) first show ?thesis by simp
qed

theorem upgrade_dependency_untouched_roots_witness:
  "fst (upgrade_dependency toy ''lib'' False demo_two_roots) =
     Inr (Some (Pkg ''lib'' ''2.0'' []), []) \<and>
   length (concretized_order (snd (upgrade_dependency toy ''lib'' False demo_two_roots))) = 2 \<and>
   concretized_order (snd (upgrade_dependency toy ''lib'' False demo_two_roots)) ! 0 = ''mpich@3.2''"
proof -
  let ?G = "{Pkg ''mpich'' ''3.2'' [], Pkg ''app-a'' ''1.0'' [Pkg ''lib'' ''1.0'' []],
             Pkg ''app-a'' ''1.0'' [Pkg ''lib'' ''2.0'' []]}"
  have f: "fst (upgrade_dependency toy ''lib'' False demo_two_roots) =
             Inr (Some (Pkg ''lib'' ''2.0'' []), [])"
    by (simp add: upgrade_dependency_def upgrade_dependency_version_def demo_two_roots_def
          Context_def toy_simps toy_concretize_def toy_getitem_def)
  then have run: "upgrade_dependency toy ''lib'' False demo_two_roots =
      (Inr (Some (Pkg ''lib'' ''2.0'' []), []),
       snd (upgrade_dependency toy ''lib'' False demo_two_roots))"
    by (metis prod.collapse)
  have st: "roots_stored toy demo_two_roots"
    by (simp add: roots_stored_def demo_two_roots_def Context_def toy_simps)
  have sub: "set (resolved_roots demo_two_roots) \<subseteq> ?G"
    by (simp add: resolved_roots_def demo_two_roots_def Context_def List.map_filter_simps)
  have cl: "\<forall>g \<in> ?G. \<forall>ns. upgrade_dependency_version toy g ''lib'' = Inr ns \<longrightarrow> ns \<in> ?G"
    by (simp add: upgrade_dependency_version_def toy_simps toy_concretize_def)
  have inj: "inj_on (dag_hash toy) ?G"
    by (simp add: toy_simps)
  have l: "specs_by_hash demo_two_roots (concretized_order demo_two_roots ! 0) =
             Some (Pkg ''mpich'' ''3.2'' [])"
          "\<not> spec_contains toy ''lib'' (Pkg ''mpich'' ''3.2'' [])"
          "0 < length (concretized_order demo_two_roots)"
          "concretized_order demo_two_roots ! 0 = ''mpich@3.2''"
          "length (concretized_order demo_two_roots) = 2"
    by (simp_all add: demo_two_roots_def Context_def toy_simps)
  from upgrade_dependency_untouched_roots [OF run st sub cl inj] l f show ?thesis
    by metis
qed

section \<open>Environment projection\<close>

lemma env_dep_loop_selected:
  "fst (env_dep_loop api ds p w) n =
     (case p n of Some k \<Rightarrow> Some k | None \<Rightarrow> List.find (\<lambda>d. spec_name api d = n) ds)"
proof (induction ds arbitrary: p w)
  case Nil
  then show ?case by (simp split: option.splits)
next
  case (Cons d ds)
  then show ?case by (cases "p (spec_name api d)") (auto split: option.splits)
qed

lemma env_dep_loop_warnings:
  "filter (\<lambda>x. spec_name api (snd x) = n) (snd (env_dep_loop api ds p w)) =
     filter (\<lambda>x. spec_name api (snd x) = n) w @
     (case p n of
        Some k \<Rightarrow> map (Pair k) (filter (\<lambda>d. spec_name api d = n) ds)
      | None \<Rightarrow>
          (case filter (\<lambda>d. spec_name api d = n) ds of
             [] \<Rightarrow> []
           | d # rest \<Rightarrow> map (Pair d) rest))"
proof (induction ds arbitrary: p w)
  case Nil
  then show ?case by (simp split: option.splits)
next
  case (Cons d ds)
  show ?case
  proof (cases "p (spec_name api d)")
    case None
    note ih = Cons.IH [of "p(spec_name api d \<mapsto> d)" w]
    show ?thesis
    proof (cases "spec_name api d = n")
      case True
      with None have "p n = None" by simp
      with True None ih show ?thesis by (simp add: fun_upd_def)
    next
      case False
      with None ih show ?thesis by (simp add: fun_upd_def cong: option.case_cong)
    qed
  next
    case (Some kept)
    note ih = Cons.IH [of p "w @ [(kept, d)]"]
    show ?thesis
    proof (cases "spec_name api d = n")
      case True
      with Some ih show ?thesis by simp
    next
      case False
      with Some ih show ?thesis by (simp cong: option.case_cong)
    qed
  qed
qed

lemma env_dep_loop_append:
  "env_dep_loop api (xs @ ys) p w =
     (case env_dep_loop api xs p w of (p', w') \<Rightarrow> env_dep_loop api ys p' w')"
  by (induction xs arbitrary: p w) (auto split: option.splits)

lemma env_root_loop_stored:
  "\<forall>h \<in> set hs. specs_by_hash self h \<noteq> None \<Longrightarrow>
   env_root_loop api hs self p w =
     Inr (env_dep_loop api
            (concat (map (traverse api [''link'', ''run''])
                         (map (\<lambda>h. the (specs_by_hash self h)) hs))) p w)"
proof (induction hs arbitrary: p w)
  case Nil
  then show ?case by simp
next
  case (Cons h hs)
  then obtain g where g: "specs_by_hash self h = Some g" by auto
  obtain p' w' where l: "env_dep_loop api (traverse api [''link'', ''run''] g) p w = (p', w')"
    by (cases "env_dep_loop api (traverse api [''link'', ''run''] g) p w")
  from Cons.prems have "\<forall>h \<in> set hs. specs_by_hash self h \<noteq> None" by simp
  from Cons.IH [OF this, of p' w'] g l show ?case
    by (simp add: env_dep_loop_append)
qed

lemma filter_distinct_key:
  "distinct (map f xs) \<Longrightarrow> x \<in> set xs \<Longrightarrow> filter (\<lambda>y. f y = f x) xs = [x]"
proof (induction xs)
  case Nil
  then show ?case by simp
next
  case (Cons a xs)
  show ?case
  proof (cases "x = a")
    case True
    from Cons.prems(1) have "f a \<notin> f ` set xs" by simp
    then have "\<forall>y \<in> set xs. f y \<noteq> f a" by (metis imageI)
    then have "filter (\<lambda>y. f y = f a) xs = []" by (simp add: filter_empty_conv)
    with True show ?thesis by simp
  next
    case False
    with Cons.prems have "x \<in> set xs" "f a \<noteq> f x" by auto
    with Cons show ?thesis by simp
  qed
qed

lemma filter_distinct_key_short:
  "distinct (map f xs) \<Longrightarrow> length (filter (\<lambda>y. f y = k) xs) \<le> 1"
proof (cases "\<exists>x \<in> set xs. f x = k")
  case True
  then obtain x where "x \<in> set xs" "f x = k" by blast
  moreover assume "distinct (map f xs)"
  ultimately show ?thesis using filter_distinct_key [of f xs x] by auto
next
  case False
  then have "filter (\<lambda>y. f y = k) xs = []" by (simp add: filter_empty_conv)
  then show ?thesis by simp
qed

lemma case_short:
  "length xs \<le> 1 \<Longrightarrow> (case xs of [] \<Rightarrow> [] | d # rest \<Rightarrow> map (Pair d) rest) = []"
  by (cases xs) auto

lemma only_one_key:
  assumes "\<And>n. filter (\<lambda>x. f x = n) ws = (if n = k then [v] else [])"
  shows "ws = [v]"
proof -
  have "f x = k" if "x \<in> set ws" for x
  proof (rule ccontr)
    assume "f x \<noteq> k"
    with assms [of "f x"] have "filter (\<lambda>y. f y = f x) ws = []" by simp
    with that show False by (auto simp: filter_empty_conv)
  qed
  then have "filter (\<lambda>x. f x = k) ws = ws" by (simp add: filter_id_conv)
  with assms [of k] show ?thesis by simp
qed

lemma find_filter:
  "List.find P xs = (case filter P xs of [] \<Rightarrow> None | x # _ \<Rightarrow> Some x)"
  by (induction xs) auto

lemma flatten_result:
  assumes "hashes_stored self"
  shows "get_environment_specs api self =
           Inr (env_dep_loop api (all_deps api self) Map.empty [])"
    and "fst (env_dep_loop api (all_deps api self) Map.empty []) n =
           List.find (\<lambda>d. spec_name api d = n) (all_deps api self)"
    and "filter (\<lambda>w. spec_name api (snd w) = n)
           (snd (env_dep_loop api (all_deps api self) Map.empty [])) =
           (case filter (\<lambda>d. spec_name api d = n) (all_deps api self) of
              [] \<Rightarrow> []
            | d # rest \<Rightarrow> map (Pair d) rest)"
proof -
  from assms have ne: "\<forall>h \<in> set (concretized_order self). specs_by_hash self h \<noteq> None"
    by (simp add: hashes_stored_def list_all_iff)
  then have "resolved_roots self =
      map (\<lambda>h. the (specs_by_hash self h)) (concretized_order self)"
    unfolding resolved_roots_def by (rule map_filter_stored)
  with env_root_loop_stored [OF ne, of api Map.empty "[]"]
  show "get_environment_specs api self =
           Inr (env_dep_loop api (all_deps api self) Map.empty [])"
    by (simp add: get_environment_specs_def all_deps_def)
  show "fst (env_dep_loop api (all_deps api self) Map.empty []) n =
           List.find (\<lambda>d. spec_name api d = n) (all_deps api self)"
    by (simp add: env_dep_loop_selected)
  show "filter (\<lambda>w. spec_name api (snd w) = n)
           (snd (env_dep_loop api (all_deps api self) Map.empty [])) =
           (case filter (\<lambda>d. spec_name api d = n) (all_deps api self) of
              [] \<Rightarrow> []
            | d # rest \<Rightarrow> map (Pair d) rest)"
    by (simp add: env_dep_loop_warnings)
qed

text \<open>
  Over nodes of pairwise different names the inner loop warns exactly for those whose
  name is selected already; so two roots, each with one node per name, give one
  warning for each node of the second root whose name the first root has.
\<close>

lemma env_dep_loop_distinct:
  "distinct (map (spec_name api) ds) \<Longrightarrow>
   snd (env_dep_loop api ds p w) =
     w @ map (\<lambda>d. (the (p (spec_name api d)), d))
             (filter (\<lambda>d. p (spec_name api d) \<noteq> None) ds)"
proof (induction ds arbitrary: p w)
  case Nil
  then show ?case by simp
next
  case (Cons d ds)
  from Cons.prems have dist: "distinct (map (spec_name api) ds)"
    and fresh: "\<forall>x \<in> set ds. spec_name api x \<noteq> spec_name api d"
    by (simp, metis distinct.simps(2) imageI list.set_map list.simps(9))
  show ?case
  proof (cases "p (spec_name api d)")
    case None
    let ?p = "p(spec_name api d \<mapsto> d)"
    have same: "?p (spec_name api x) = p (spec_name api x)" if "x \<in> set ds" for x
      using fresh that by simp
    have f: "filter (\<lambda>x. ?p (spec_name api x) \<noteq> None) ds =
             filter (\<lambda>x. p (spec_name api x) \<noteq> None) ds"
      by (rule filter_cong [OF refl]) (simp only: same)
    have m: "map (\<lambda>x. (the (?p (spec_name api x)), x))
                 (filter (\<lambda>x. p (spec_name api x) \<noteq> None) ds) =
             map (\<lambda>x. (the (p (spec_name api x)), x))
                 (filter (\<lambda>x. p (spec_name api x) \<noteq> None) ds)"
      by (rule map_cong [OF refl]) (use fresh in auto)
    from Cons.IH [OF dist, of ?p w] None show ?thesis
      by (simp only: env_dep_loop.simps option.case f m filter.simps) simp
  next
    case (Some kept)
    from Cons.IH [OF dist, of p "w @ [(kept, d)]"] Some show ?thesis by simp
  qed
qed

lemma two_roots_warnings:
  assumes "distinct (map (spec_name api) t1)" "distinct (map (spec_name api) t2)"
  shows "snd (env_dep_loop api (t1 @ t2) Map.empty []) =
           map (\<lambda>d. (the (List.find (\<lambda>x. spec_name api x = spec_name api d) t1), d))
               (filter (\<lambda>d. spec_name api d \<in> spec_name api ` set t1) t2)"
proof -
  obtain p1 w1 where r1: "env_dep_loop api t1 Map.empty [] = (p1, w1)"
    by (cases "env_dep_loop api t1 Map.empty []")
  from env_dep_loop_distinct [OF assms(1), of Map.empty "[]"] r1 have w1: "w1 = []" by simp
  from env_dep_loop_selected [of api t1 Map.empty "[]"] r1
  have p1: "p1 n = List.find (\<lambda>x. spec_name api x = n) t1" for n by simp
  have mem: "(p1 (spec_name api d) \<noteq> None) = (spec_name api d \<in> spec_name api ` set t1)" for d
    by (auto simp: p1 find_None_iff) (metis imageI)
  have "snd (env_dep_loop api t2 p1 []) =
          map (\<lambda>d. (the (p1 (spec_name api d)), d))
              (filter (\<lambda>d. spec_name api d \<in> spec_name api ` set t1) t2)"
    using env_dep_loop_distinct [OF assms(2), of p1 "[]"] by (simp only: mem append_Nil)
  then have "snd (env_dep_loop api t2 p1 []) =
          map (\<lambda>d. (the (List.find (\<lambda>x. spec_name api x = spec_name api d) t1), d))
              (filter (\<lambda>d. spec_name api d \<in> spec_name api ` set t1) t2)"
    by (simp only: p1)
  with r1 w1 show ?thesis by (simp add: env_dep_loop_append)
qed

lemma flatten_two_roots:
  assumes sel: "\<And>n. p n = List.find (\<lambda>d. spec_name api d = n) (all_deps api self)"
      and warn: "\<And>n. filter (\<lambda>w. spec_name api (snd w) = n) ws =
                   (case filter (\<lambda>d. spec_name api d = n) (all_deps api self) of
                      [] \<Rightarrow> []
                    | d # rest \<Rightarrow> map (Pair d) rest)"
      and two: "concretized_order self = [h1, h2]"
               "specs_by_hash self h1 = Some g1" "specs_by_hash self h2 = Some g2"
      and dist: "distinct (map (spec_name api) (traverse api [''link'', ''run''] g1))"
                "distinct (map (spec_name api) (traverse api [''link'', ''run''] g2))"
      and mem: "d1 \<in> set (traverse api [''link'', ''run''] g1)"
               "d2 \<in> set (traverse api [''link'', ''run''] g2)"
               "spec_name api d1 = spec_name api d2"
  shows "p (spec_name api d1) = Some d1"
    and "filter (\<lambda>w. spec_name api (snd w) = spec_name api d1) ws = [(d1, d2)]"
    and "(\<forall>a \<in> set (traverse api [''link'', ''run''] g1).
          \<forall>b \<in> set (traverse api [''link'', ''run''] g2).
            spec_name api a = spec_name api b \<longrightarrow> spec_name api a = spec_name api d1) \<longrightarrow>
         ws = [(d1, d2)]"
proof -
  let ?t1 = "traverse api [''link'', ''run''] g1"
  let ?t2 = "traverse api [''link'', ''run''] g2"
  have all: "all_deps api self = ?t1 @ ?t2"
    by (simp add: all_deps_def resolved_roots_def two List.map_filter_simps)
  have f1: "filter (\<lambda>d. spec_name api d = spec_name api d1) ?t1 = [d1]"
    by (rule filter_distinct_key [OF dist(1) mem(1)])
  have f2: "filter (\<lambda>d. spec_name api d = spec_name api d1) ?t2 = [d2]"
    using filter_distinct_key [OF dist(2) mem(2)] mem(3) by simp
  show "p (spec_name api d1) = Some d1"
    by (simp add: sel find_filter all f1)
  show k: "filter (\<lambda>w. spec_name api (snd w) = spec_name api d1) ws = [(d1, d2)]"
    by (simp add: warn all f1 f2)
  show "(\<forall>a \<in> set ?t1. \<forall>b \<in> set ?t2.
            spec_name api a = spec_name api b \<longrightarrow> spec_name api a = spec_name api d1) \<longrightarrow>
         ws = [(d1, d2)]"
  proof
    assume only: "\<forall>a \<in> set ?t1. \<forall>b \<in> set ?t2.
            spec_name api a = spec_name api b \<longrightarrow> spec_name api a = spec_name api d1"
    show "ws = [(d1, d2)]"
    proof (rule only_one_key [where f = "\<lambda>w. spec_name api (snd w)" and k = "spec_name api d1"])
      fix n
      show "filter (\<lambda>x. spec_name api (snd x) = n) ws =
              (if n = spec_name api d1 then [(d1, d2)] else [])"
      proof (cases "n = spec_name api d1")
        case True
        with k show ?thesis by simp
      next
        case False
        let ?A = "filter (\<lambda>d. spec_name api d = n) ?t1"
        let ?B = "filter (\<lambda>d. spec_name api d = n) ?t2"
        have la: "length ?A \<le> 1" by (rule filter_distinct_key_short [OF dist(1)])
        have lb: "length ?B \<le> 1" by (rule filter_distinct_key_short [OF dist(2)])
        have "?A = [] \<or> ?B = []"
        proof (rule ccontr)
          assume "\<not> (?A = [] \<or> ?B = [])"
          then have "?A \<noteq> []" "?B \<noteq> []" by blast+
          then obtain a b where "a \<in> set ?A" "b \<in> set ?B" by (meson last_in_set)
          then have ab: "a \<in> set ?t1" "spec_name api a = n" "b \<in> set ?t2" "spec_name api b = n"
            by simp_all
          then have "spec_name api a = spec_name api b" by simp
          with only ab(1,3) have "spec_name api a = spec_name api d1" by (simp only:)
          with ab(2) False show False by simp
        qed
        then have "length (?A @ ?B) \<le> 1"
        proof
          assume "?A = []"
          then have "?A @ ?B = ?B" by (simp only: append_Nil)
          with lb show ?thesis by (simp only:)
        next
          assume "?B = []"
          then have "?A @ ?B = ?A" by (simp only: append_Nil2)
          with la show ?thesis by (simp only:)
        qed
        then have c: "(case ?A @ ?B of [] \<Rightarrow> [] | d # rest \<Rightarrow> map (Pair d) rest) = []"
          by (rule case_short)
        have "filter (\<lambda>x. spec_name api (snd x) = n) ws = []"
          unfolding warn all filter_append by (rule c)
        with False show ?thesis by simp
      qed
    qed
  qed
qed

text \<open>
  Claim C4, as the code has it. On a context whose resolutions are all stored,
  \<^verbatim>\<open>_get_environment_specs\<close> returns, and with warnings only. For every package name
  it selects the first node of that name met when the roots are walked in the order of
  the resolutions, and every later node of that name, whether its resolution differs or
  not, is dropped with one warning that names the selected node and the dropped one.
  So for two roots, each with one node per package name: there is one warning for each
  node of the second root whose name the first root has, in the second root's order;
  when both reach a node of the same name, the node of the first root is selected and
  exactly one warning concerns that name and names both nodes; it is the only warning
  exactly when the roots share no other package name.
\<close>

theorem flatten_first_writer_wins:
  assumes "hashes_stored self"
  shows "\<exists>package_to_spec warnings.
           get_environment_specs api self = Inr (package_to_spec, warnings) \<and>
           (\<forall>n. package_to_spec n = List.find (\<lambda>d. spec_name api d = n) (all_deps api self)) \<and>
           (\<forall>n. filter (\<lambda>w. spec_name api (snd w) = n) warnings =
                  (case filter (\<lambda>d. spec_name api d = n) (all_deps api self) of
                     [] \<Rightarrow> []
                   | d # rest \<Rightarrow> map (Pair d) rest)) \<and>
           (\<forall>h1 h2 g1 g2 d1 d2.
              concretized_order self = [h1, h2] \<and>
              specs_by_hash self h1 = Some g1 \<and> specs_by_hash self h2 = Some g2 \<and>
              distinct (map (spec_name api) (traverse api [''link'', ''run''] g1)) \<and>
              distinct (map (spec_name api) (traverse api [''link'', ''run''] g2)) \<and>
              d1 \<in> set (traverse api [''link'', ''run''] g1) \<and>
              d2 \<in> set (traverse api [''link'', ''run''] g2) \<and>
              spec_name api d1 = spec_name api d2 \<longrightarrow>
              package_to_spec (spec_name api d1) = Some d1 \<and>
              filter (\<lambda>w. spec_name api (snd w) = spec_name api d1) warnings = [(d1, d2)] \<and>
              warnings =
                map (\<lambda>d. (the (List.find (\<lambda>x. spec_name api x = spec_name api d)
                                   (traverse api [''link'', ''run''] g1)), d))
                    (filter (\<lambda>d. spec_name api d \<in>
                                   spec_name api ` set (traverse api [''link'', ''run''] g1))
                            (traverse api [''link'', ''run''] g2)) \<and>
              ((\<forall>a \<in> set (traverse api [''link'', ''run''] g1).
                \<forall>b \<in> set (traverse api [''link'', ''run''] g2).
                  spec_name api a = spec_name api b \<longrightarrow> spec_name api a = spec_name api d1) \<longrightarrow>
               warnings = [(d1, d2)]))"
proof -
  let ?r = "env_dep_loop api (all_deps api self) Map.empty []"
  note r = flatten_result [OF assms, of api]
  have sel: "fst ?r n = List.find (\<lambda>d. spec_name api d = n) (all_deps api self)" for n
    by (rule r(2))
  have warn: "filter (\<lambda>w. spec_name api (snd w) = n) (snd ?r) =
                (case filter (\<lambda>d. spec_name api d = n) (all_deps api self) of
                   [] \<Rightarrow> []
                 | d # rest \<Rightarrow> map (Pair d) rest)" for n
    by (rule r(3))
  have two: "fst ?r (spec_name api d1) = Some d1 \<and>
              filter (\<lambda>w. spec_name api (snd w) = spec_name api d1) (snd ?r) = [(d1, d2)] \<and>
              snd ?r =
                map (\<lambda>d. (the (List.find (\<lambda>x. spec_name api x = spec_name api d)
                                   (traverse api [''link'', ''run''] g1)), d))
                    (filter (\<lambda>d. spec_name api d \<in>
                                   spec_name api ` set (traverse api [''link'', ''run''] g1))
                            (traverse api [''link'', ''run''] g2)) \<and>
              ((\<forall>a \<in> set (traverse api [''link'', ''run''] g1).
                \<forall>b \<in> set (traverse api [''link'', ''run''] g2).
                  spec_name api a = spec_name api b \<longrightarrow> spec_name api a = spec_name api d1) \<longrightarrow>
               snd ?r = [(d1, d2)])"
    if "concretized_order self = [h1, h2] \<and>
        specs_by_hash self h1 = Some g1 \<and> specs_by_hash self h2 = Some g2 \<and>
        distinct (map (spec_name api) (traverse api [''link'', ''run''] g1)) \<and>
        distinct (map (spec_name api) (traverse api [''link'', ''run''] g2)) \<and>
        d1 \<in> set (traverse api [''link'', ''run''] g1) \<and>
        d2 \<in> set (traverse api [''link'', ''run''] g2) \<and>
        spec_name api d1 = spec_name api d2" for h1 h2 g1 g2 d1 d2
  proof -
    from that have t: "concretized_order self = [h1, h2]"
      "specs_by_hash self h1 = Some g1" "specs_by_hash self h2 = Some g2"
      "distinct (map (spec_name api) (traverse api [''link'', ''run''] g1))"
      "distinct (map (spec_name api) (traverse api [''link'', ''run''] g2))"
      "d1 \<in> set (traverse api [''link'', ''run''] g1)"
      "d2 \<in> set (traverse api [''link'', ''run''] g2)"
      "spec_name api d1 = spec_name api d2" by blast+
    have all: "all_deps api self =
        traverse api [''link'', ''run''] g1 @ traverse api [''link'', ''run''] g2"
      by (simp add: all_deps_def resolved_roots_def t(1-3) List.map_filter_simps)
    note exact = two_roots_warnings [OF t(4,5), folded all]
    from flatten_two_roots [of "fst ?r" api self "snd ?r", OF sel warn t] exact
    show ?thesis by (intro conjI)
  qed
  have "get_environment_specs api self = Inr (fst ?r, snd ?r)" using r(1) by simp
  with sel warn two show ?thesis
    by (intro exI [of _ "fst ?r"] exI [of _ "snd ?r"]) blast
qed

theorem flatten_first_writer_wins_witness:
  "\<exists>package_to_spec warnings.
     get_environment_specs toy demo_shared = Inr (package_to_spec, warnings) \<and>
     package_to_spec ''lib'' = Some (Pkg ''lib'' ''1.0'' []) \<and>
     filter (\<lambda>w. pkg_name (snd w) = ''lib'') warnings =
       [(Pkg ''lib'' ''1.0'' [], Pkg ''lib'' ''2.0'' [])] \<and>
     warnings = [(Pkg ''lib'' ''1.0'' [], Pkg ''lib'' ''2.0'' []),
                 (Pkg ''mpich'' ''3.2'' [], Pkg ''mpich'' ''3.2'' [])]"
proof -
  let ?g1 = "Pkg ''app-a'' ''1.0'' [Pkg ''lib'' ''1.0'' [], Pkg ''mpich'' ''3.2'' []]"
  let ?g2 = "Pkg ''app-b'' ''1.0'' [Pkg ''lib'' ''2.0'' [], Pkg ''mpich'' ''3.2'' []]"
  have st: "hashes_stored demo_shared"
    by (simp add: hashes_stored_def demo_shared_def Context_def)
  from flatten_first_writer_wins [OF st, of toy] obtain p w where
    r: "get_environment_specs toy demo_shared = Inr (p, w)" and
    two: "\<forall>h1 h2 g1 g2 d1 d2.
              concretized_order demo_shared = [h1, h2] \<and>
              specs_by_hash demo_shared h1 = Some g1 \<and> specs_by_hash demo_shared h2 = Some g2 \<and>
              distinct (map (spec_name toy) (traverse toy [''link'', ''run''] g1)) \<and>
              distinct (map (spec_name toy) (traverse toy [''link'', ''run''] g2)) \<and>
              d1 \<in> set (traverse toy [''link'', ''run''] g1) \<and>
              d2 \<in> set (traverse toy [''link'', ''run''] g2) \<and>
              spec_name toy d1 = spec_name toy d2 \<longrightarrow>
              p (spec_name toy d1) = Some d1 \<and>
              filter (\<lambda>w. spec_name toy (snd w) = spec_name toy d1) w = [(d1, d2)] \<and>
              w =
                map (\<lambda>d. (the (List.find (\<lambda>x. spec_name toy x = spec_name toy d)
                                   (traverse toy [''link'', ''run''] g1)), d))
                    (filter (\<lambda>d. spec_name toy d \<in>
                                   spec_name toy ` set (traverse toy [''link'', ''run''] g1))
                            (traverse toy [''link'', ''run''] g2)) \<and>
              ((\<forall>a \<in> set (traverse toy [''link'', ''run''] g1).
                \<forall>b \<in> set (traverse toy [''link'', ''run''] g2).
                  spec_name toy a = spec_name toy b \<longrightarrow> spec_name toy a = spec_name toy d1) \<longrightarrow>
               w = [(d1, d2)])"
    by (elim exE conjE)
  note inst = two [rule_format, of "''app-a@1.0^lib@1.0^mpich@3.2''"
      "''app-b@1.0^lib@2.0^mpich@3.2''" ?g1 ?g2 "Pkg ''lib'' ''1.0'' []" "Pkg ''lib'' ''2.0'' []"]
  have prem: "concretized_order demo_shared =
        [''app-a@1.0^lib@1.0^mpich@3.2'', ''app-b@1.0^lib@2.0^mpich@3.2''] \<and>
      specs_by_hash demo_shared ''app-a@1.0^lib@1.0^mpich@3.2'' = Some ?g1 \<and>
      specs_by_hash demo_shared ''app-b@1.0^lib@2.0^mpich@3.2'' = Some ?g2 \<and>
      distinct (map (spec_name toy) (traverse toy [''link'', ''run''] ?g1)) \<and>
      distinct (map (spec_name toy) (traverse toy [''link'', ''run''] ?g2)) \<and>
      Pkg ''lib'' ''1.0'' [] \<in> set (traverse toy [''link'', ''run''] ?g1) \<and>
      Pkg ''lib'' ''2.0'' [] \<in> set (traverse toy [''link'', ''run''] ?g2) \<and>
      spec_name toy (Pkg ''lib'' ''1.0'' []) = spec_name toy (Pkg ''lib'' ''2.0'' [])"
    by (simp add: demo_shared_def Context_def toy_simps)
  from inst [OF prem] have
    a: "p (spec_name toy (Pkg ''lib'' ''1.0'' [])) = Some (Pkg ''lib'' ''1.0'' [])" and
    b: "filter (\<lambda>w. spec_name toy (snd w) = spec_name toy (Pkg ''lib'' ''1.0'' [])) w =
          [(Pkg ''lib'' ''1.0'' [], Pkg ''lib'' ''2.0'' [])]" and
    c: "w = map (\<lambda>d. (the (List.find (\<lambda>x. spec_name toy x = spec_name toy d)
                                   (traverse toy [''link'', ''run''] ?g1)), d))
                    (filter (\<lambda>d. spec_name toy d \<in>
                                   spec_name toy ` set (traverse toy [''link'', ''run''] ?g1))
                            (traverse toy [''link'', ''run''] ?g2))"
    by blast+
  from a have a': "p ''lib'' = Some (Pkg ''lib'' ''1.0'' [])" by (simp add: toy_simps)
  from b have b': "filter (\<lambda>w. pkg_name (snd w) = ''lib'') w =
          [(Pkg ''lib'' ''1.0'' [], Pkg ''lib'' ''2.0'' [])]" by (simp add: toy_simps)
  from c have c': "w = [(Pkg ''lib'' ''1.0'' [], Pkg ''lib'' ''2.0'' []),
                 (Pkg ''mpich'' ''3.2'' [], Pkg ''mpich'' ''3.2'' [])]"
    by (simp add: toy_simps)
  from r a' b' c' show ?thesis by blast
qed

text \<open>
  The claim as it is written fails where the two roots share a further package: the
  roots below depend on \<open>lib@1.0\<close> and \<open>lib@2.0\<close> and both on \<open>mpich@3.2\<close>, and
  two warnings are printed, the second for the node that both roots resolve alike.
\<close>

theorem flatten_single_warning_counterexample:
  "resolved_roots demo_shared =
     [Pkg ''app-a'' ''1.0'' [Pkg ''lib'' ''1.0'' [], Pkg ''mpich'' ''3.2'' []],
      Pkg ''app-b'' ''1.0'' [Pkg ''lib'' ''2.0'' [], Pkg ''mpich'' ''3.2'' []]] \<and>
   map_sum id snd (get_environment_specs toy demo_shared) =
     Inr [(Pkg ''lib'' ''1.0'' [], Pkg ''lib'' ''2.0'' []),
          (Pkg ''mpich'' ''3.2'' [], Pkg ''mpich'' ''3.2'' [])] \<and>
   map_sum id (length \<circ> snd) (get_environment_specs toy demo_shared) = Inr 2"
  by (simp add: resolved_roots_def get_environment_specs_def demo_shared_def Context_def
        toy_simps List.map_filter_simps)

section \<open>The context invariant\<close>

lemma del_index_keeps_distinct:
  assumes "distinct xs" "i < length xs"
  shows "distinct (del_index i xs)" "xs ! i \<notin> set (del_index i xs)"
proof -
  from assms(2) have "xs = take i xs @ xs ! i # drop (Suc i) xs" by (rule id_take_nth_drop)
  with assms(1) have "distinct (take i xs @ xs ! i # drop (Suc i) xs)" by simp
  then show "distinct (del_index i xs)" "xs ! i \<notin> set (del_index i xs)"
    by (auto simp: del_index_def)
qed

lemma del_index_subset: "set (del_index i xs) \<subseteq> set xs"
  by (auto simp: del_index_def dest: in_set_takeD in_set_dropD)

lemma del_index_map: "map f (del_index i xs) = del_index i (map f xs)"
  by (simp add: del_index_def take_map drop_map)

lemma del_index_length: "i < length xs \<Longrightarrow> length (del_index i xs) = length xs - 1"
  by (simp add: del_index_def)

lemma del_index_all2:
  "list_all2 R xs ys \<Longrightarrow> list_all2 R (del_index i xs) (del_index i ys)"
  unfolding del_index_def
  by (intro list_all2_appendI list_all2_takeI list_all2_dropI)

lemma take_del_index_inside:
  "i < n \<Longrightarrow> n \<le> length xs \<Longrightarrow> take (n - 1) (del_index i xs) = del_index i (take n xs)"
proof (cases n)
  case 0
  then show "i < n \<Longrightarrow> ?thesis" by simp
next
  case (Suc m)
  then show "i < n \<Longrightarrow> n \<le> length xs \<Longrightarrow> ?thesis"
    by (auto simp: del_index_def drop_take min_def dest: le_antisym)
qed

lemma take_del_index_outside:
  "n \<le> i \<Longrightarrow> take n (del_index i xs) = take n xs"
  by (simp add: del_index_def min_def)

text \<open>When names tell hashes apart, aligned resolutions of distinct names are distinct.\<close>

lemma aligned_order_distinct:
  assumes "names_separate_hashes api" "prefix_aligned api self"
      and "distinct (request_names api self)"
  shows "distinct (concretized_order self)"
proof -
  let ?us = "user_specs self" and ?os = "concretized_order self"
  from assms(2) have len: "length ?os \<le> length ?us"
    and al: "list_all2 (resolution_of api) (take (length ?os) ?us) ?os"
    by (simp_all add: prefix_aligned_def)
  have res: "resolution_of api (?us ! j) (?os ! j)" if "j < length ?os" for j
    using list_all2_nthD2 [OF al that] that by simp
  show ?thesis
    unfolding distinct_conv_nth
  proof (intro allI impI)
    fix j k assume jk: "j < length ?os" "k < length ?os" "j \<noteq> k"
    show "?os ! j \<noteq> ?os ! k"
    proof
      assume eq: "?os ! j = ?os ! k"
      from res [OF jk(1)] res [OF jk(2)] eq assms(1)
      have "spec_name api (Spec api (?us ! j)) = spec_name api (Spec api (?us ! k))"
        unfolding names_separate_hashes_def by metis
      moreover from jk len have "j < length ?us" "k < length ?us" by simp_all
      ultimately have "request_names api self ! j = request_names api self ! k"
        "j < length (request_names api self)" "k < length (request_names api self)"
        by (simp_all add: request_names_def)
      with assms(3) jk(3) show False by (simp add: nth_eq_iff_index_eq)
    qed
  qed
qed

lemma add_keeps_invariant:
  assumes "context_invariant api self" "distinct (request_names api self)"
  shows "context_invariant api (snd (add api u self)) \<and>
         distinct (request_names api (snd (add api u self)))"
proof (cases "\<exists>x \<in> set (user_specs self).
                 spec_name api (Spec api x) = spec_name api (Spec api u)")
  case True
  then have "snd (add api u self) = self"
    by (auto simp: add_def Let_def filter_empty_conv)
  with assms show ?thesis by simp
next
  case False
  then have r: "snd (add api u self) = self\<lparr>user_specs := user_specs self @ [u]\<rparr>"
    by (auto simp: add_def Let_def filter_empty_conv)
  from False assms(2) have "distinct (request_names api (self\<lparr>user_specs := user_specs self @ [u]\<rparr>))"
    by (auto simp: request_names_def)
  moreover from assms(1) have "context_invariant api (self\<lparr>user_specs := user_specs self @ [u]\<rparr>)"
    by (simp add: context_invariant_def prefix_aligned_def hashes_stored_def)
  ultimately show ?thesis using r by simp
qed

lemma concretize_loop_keeps_invariant:
  assumes "context_invariant api self"
      and "rest = drop (length (concretized_order self)) (user_specs self)"
  shows "context_invariant api (snd (concretize_loop api rest new self)) \<and>
         user_specs (snd (concretize_loop api rest new self)) = user_specs self"
  using assms
proof (induction rest arbitrary: new self)
  case Nil
  then show ?case by simp
next
  case (Cons u rest)
  show ?case
  proof (cases "spec_concretize api (Spec api u)")
    case (Inl e)
    with Cons.prems(1) show ?thesis by simp
  next
    case (Inr g)
    let ?us = "user_specs self" and ?os = "concretized_order self"
    let ?self1 = "self\<lparr>specs_by_hash := (specs_by_hash self)(dag_hash api g \<mapsto> g),
                        concretized_order := ?os @ [dag_hash api g]\<rparr>"
    from Cons.prems(2) have lt: "length ?os < length ?us"
      by (metis drop_eq_Nil leI list.distinct(1))
    from Cons.prems(2) have u: "?us ! length ?os = u"
      by (metis lt hd_drop_conv_nth list.sel(1))
    from Cons.prems(2) have rest: "rest = drop (length (concretized_order ?self1)) (user_specs ?self1)"
      by (metis (no_types, lifting) drop_Suc length_append_singleton list.sel(3) tl_drop
            context_state.select_convs(2,3) context_state.surjective context_state.update_convs(3,4))
    from Cons.prems(1) have al: "list_all2 (resolution_of api) (take (length ?os) ?us) ?os"
      and st: "list_all (\<lambda>h. specs_by_hash self h \<noteq> None) ?os"
      by (simp_all add: context_invariant_def prefix_aligned_def hashes_stored_def)
    have "resolution_of api u (dag_hash api g)" using Inr by (simp add: resolution_of_def)
    with al have "list_all2 (resolution_of api) (take (length ?os) ?us @ [u]) (?os @ [dag_hash api g])"
      by (intro list_all2_appendI) simp_all
    with lt u have al1: "list_all2 (resolution_of api) (take (Suc (length ?os)) ?us)
        (?os @ [dag_hash api g])"
      by (simp add: take_Suc_conv_app_nth)
    from st have st1: "list_all (\<lambda>h. ((specs_by_hash self)(dag_hash api g \<mapsto> g)) h \<noteq> None)
        (?os @ [dag_hash api g])"
      by (simp add: list_all_iff)
    from lt al1 st1 have inv1: "context_invariant api ?self1"
      by (simp add: context_invariant_def prefix_aligned_def hashes_stored_def)
    from Cons.IH [OF inv1 rest, of "new @ [g]"] Inr show ?thesis by simp
  qed
qed

lemma concretize_keeps_invariant:
  assumes "context_invariant api self" "distinct (request_names api self)"
  shows "context_invariant api (snd (concretize api self)) \<and>
         distinct (request_names api (snd (concretize api self)))"
  using concretize_loop_keeps_invariant [OF assms(1) refl, of "[]"] assms(2)
  by (simp add: concretize_def request_names_def)

lemma match_loop_index:
  assumes "\<not> match_loop api q 0 xs < 0"
  shows "\<exists>k < length xs. match_loop api q 0 xs = int k"
proof -
  have "\<exists>x \<in> set xs. spec_name api (Spec api x) = spec_name api q"
  proof (rule ccontr)
    assume "\<not> (\<exists>x \<in> set xs. spec_name api (Spec api x) = spec_name api q)"
    then have "match_loop api q 0 xs = - 1" by (intro match_loop_none) blast
    with assms show False by simp
  qed
  from match_loop_some [OF this, of 0] show ?thesis by auto
qed

lemma remove_keeps_invariant:
  assumes sep: "names_separate_hashes api"
      and inv: "context_invariant api self"
      and dn: "distinct (request_names api self)"
  shows "context_invariant api (snd (remove api q self)) \<and>
         distinct (request_names api (snd (remove api q self)))"
proof (cases "match_loop api (Spec api q) 0 (user_specs self) < 0")
  case True
  then have "snd (remove api q self) = self" by (simp add: remove_def)
  with inv dn show ?thesis by simp
next
  case False
  let ?us = "user_specs self" and ?os = "concretized_order self"
  from match_loop_index [OF False] obtain k where k: "k < length ?us"
    "match_loop api (Spec api q) 0 ?us = int k" by blast
  from inv have len: "length ?os \<le> length ?us"
    and al: "list_all2 (resolution_of api) (take (length ?os) ?us) ?os"
    and st: "\<forall>h \<in> set ?os. specs_by_hash self h \<noteq> None"
    by (simp_all add: context_invariant_def prefix_aligned_def hashes_stored_def list_all_iff)
  have names: "distinct (map (\<lambda>u. spec_name api (Spec api u)) (del_index k ?us))"
    using del_index_keeps_distinct(1) [of "request_names api self" k] dn k(1)
    by (simp add: request_names_def del_index_map)
  show ?thesis
  proof (cases "k < length ?os")
    case inside: True
    from inside have "?os ! k \<in> set ?os" by simp
    with st obtain g where g: "specs_by_hash self (?os ! k) = Some g" by blast
    let ?r = "self\<lparr>user_specs := del_index k ?us, concretized_order := del_index k ?os,
                    specs_by_hash := (specs_by_hash self)(?os ! k := None)\<rparr>"
    from False k inside g have r: "snd (remove api q self) = ?r"
      by (simp add: remove_def Let_def del_index_length)
    have d: "distinct ?os"
      by (rule aligned_order_distinct [OF sep _ dn]) (use inv in \<open>simp add: context_invariant_def\<close>)
    have l: "length (del_index k ?os) \<le> length (del_index k ?us)"
      using len k(1) inside by (simp add: del_index_length)
    have "take (length ?os - 1) (del_index k ?us) = del_index k (take (length ?os) ?us)"
      by (rule take_del_index_inside [OF inside len])
    with del_index_all2 [OF al, of k] inside
    have a: "list_all2 (resolution_of api)
               (take (length (del_index k ?os)) (del_index k ?us)) (del_index k ?os)"
      by (simp add: del_index_length)
    have s: "\<forall>h \<in> set (del_index k ?os). ((specs_by_hash self)(?os ! k := None)) h \<noteq> None"
    proof
      fix h assume h: "h \<in> set (del_index k ?os)"
      with del_index_keeps_distinct(2) [OF d inside] have "h \<noteq> ?os ! k" by auto
      moreover from h del_index_subset [of k ?os] st have "specs_by_hash self h \<noteq> None" by auto
      ultimately show "((specs_by_hash self)(?os ! k := None)) h \<noteq> None" by simp
    qed
    from l a s names have "context_invariant api ?r \<and> distinct (request_names api ?r)"
      by (simp add: context_invariant_def prefix_aligned_def hashes_stored_def list_all_iff
            request_names_def)
    with r show ?thesis by simp
  next
    case outside: False
    let ?r = "self\<lparr>user_specs := del_index k ?us\<rparr>"
    from False k outside have r: "snd (remove api q self) = ?r"
      by (simp add: remove_def Let_def)
    from outside k(1) have l: "length ?os \<le> length (del_index k ?us)"
      by (simp add: del_index_length)
    from outside have "take (length ?os) (del_index k ?us) = take (length ?os) ?us"
      by (intro take_del_index_outside) simp
    with al l st names have "context_invariant api ?r \<and> distinct (request_names api ?r)"
      by (simp add: context_invariant_def prefix_aligned_def hashes_stored_def list_all_iff
            request_names_def)
    with r show ?thesis by simp
  qed
qed

text \<open>
  As long as requests of different package names never concretize to the same hash,
  every sequence of operations from the empty context keeps the invariant, and the
  package names of the requests stay distinct.
\<close>

lemma run_ops_keeps_invariant:
  assumes "names_separate_hashes api"
  shows "context_invariant api (run_ops api n ops) \<and>
         distinct (request_names api (run_ops api n ops))"
proof (induction ops rule: rev_induct)
  case Nil
  show ?case
    by (simp add: run_ops_def Context_def context_invariant_def prefix_aligned_def
          hashes_stored_def request_names_def)
next
  case (snoc op ops)
  have step: "run_ops api n (ops @ [op]) = apply_op api (run_ops api n ops) op"
    by (simp add: run_ops_def)
  from snoc show ?case
    unfolding step
    by (cases op)
       (simp_all add: add_keeps_invariant remove_keeps_invariant [OF assms]
          concretize_keeps_invariant)
qed

text \<open>The premise is met by the small instance once the virtual package is left out.\<close>

lemma pkg_name_fill: "pkg_name (pkg_fill q) = pkg_name q"
  by (cases q) simp

lemma toy_concretize_Inr:
  assumes "toy_concretize p = Inr g" "pkg_name p \<noteq> ''mpi''"
  shows "pkg_name p \<in> {''app-a'', ''app-b'', ''lib'', ''mpich''} \<and> pkg_name g = pkg_name p"
  using assms unfolding toy_concretize_def Let_def
  by (auto simp: pkg_name_fill simp del: pkg_fill.simps split: if_splits)

lemma pkg_text_name:
  "CHR ''@'' \<notin> set (pkg_name g) \<Longrightarrow>
   takeWhile (\<lambda>c. c \<noteq> CHR ''@'') (pkg_text g) = pkg_name g"
  by (cases g) (auto simp: takeWhile_tail)

lemma toy_no_virtual_separates: "names_separate_hashes toy_no_virtual"
  unfolding names_separate_hashes_def resolution_of_def
proof (intro allI impI, elim conjE)
  fix u v h
  assume a: "case spec_concretize toy_no_virtual (Spec toy_no_virtual u) of
               Inl e \<Rightarrow> False | Inr spec \<Rightarrow> dag_hash toy_no_virtual spec = h"
     and b: "case spec_concretize toy_no_virtual (Spec toy_no_virtual v) of
               Inl e \<Rightarrow> False | Inr spec \<Rightarrow> dag_hash toy_no_virtual spec = h"
  from a obtain g where g: "toy_concretize (toy_parse u) = Inr g"
      "pkg_name (toy_parse u) \<noteq> ''mpi''" "pkg_text g = h"
    by (auto simp: toy_no_virtual_def toy_simps split: sum.splits if_splits)
  from b obtain g' where g': "toy_concretize (toy_parse v) = Inr g'"
      "pkg_name (toy_parse v) \<noteq> ''mpi''" "pkg_text g' = h"
    by (auto simp: toy_no_virtual_def toy_simps split: sum.splits if_splits)
  from toy_concretize_Inr [OF g(1,2)]
  have n: "CHR ''@'' \<notin> set (pkg_name g)" "pkg_name g = pkg_name (toy_parse u)" by auto
  from toy_concretize_Inr [OF g'(1,2)]
  have n': "CHR ''@'' \<notin> set (pkg_name g')" "pkg_name g' = pkg_name (toy_parse v)" by auto
  from pkg_text_name [OF n(1)] pkg_text_name [OF n'(1)] g(3) g'(3)
  have "pkg_name g = pkg_name g'" by simp
  with n(2) n'(2)
  show "spec_name toy_no_virtual (Spec toy_no_virtual u) =
        spec_name toy_no_virtual (Spec toy_no_virtual v)"
    by (simp add: toy_no_virtual_def toy_simps)
qed

lemma toy_no_virtual_invariant:
  "context_invariant toy_no_virtual (run_ops toy_no_virtual n ops)"
  using run_ops_keeps_invariant [OF toy_no_virtual_separates] by blast

text \<open>
  Claim C2, on the code. The requests \<open>mpi\<close> and \<open>mpich\<close> have different package
  names and concretize to the same graph, so that both resolutions are one hash with
  one stored graph, and the invariant holds. \<^verbatim>\<open>remove\<close> of \<open>mpi\<close> then deletes that
  graph although the resolution of \<open>mpich\<close> still names it: the first two parts of the
  invariant hold, the third does not, and \<^verbatim>\<open>install\<close> raises \<^verbatim>\<open>KeyError\<close>.
\<close>

theorem remove_shared_hash_breaks_invariant:
  "context_invariant toy (run_ops toy ''c'' [Add ''mpi'', Add ''mpich'', Concretize]) \<and>
   (let c = run_ops toy ''c'' [Add ''mpi'', Add ''mpich'', Concretize, Remove ''mpi'']
    in user_specs c = [''mpich''] \<and> concretized_order c = [''mpich@3.2''] \<and>
       specs_by_hash c ''mpich@3.2'' = None \<and>
       prefix_aligned toy c \<and> \<not> hashes_stored c \<and> \<not> context_invariant toy c \<and>
       install toy c [] = (Inl (KeyError ''mpich@3.2''), []))"
proof -
  have c3: "run_ops toy ''c'' [Add ''mpi'', Add ''mpich'', Concretize] =
     (Context ''c'')\<lparr>user_specs := [''mpi'', ''mpich''],
        concretized_order := [''mpich@3.2'', ''mpich@3.2''],
        specs_by_hash := [''mpich@3.2'' \<mapsto> Pkg ''mpich'' ''3.2'' []]\<rparr>"
    by (simp add: run_ops_def add_def concretize_def Context_def toy_simps toy_parse_def
          toy_concretize_def)
  have step: "run_ops toy ''c'' [Add ''mpi'', Add ''mpich'', Concretize, Remove ''mpi''] =
              snd (remove toy ''mpi'' (run_ops toy ''c'' [Add ''mpi'', Add ''mpich'', Concretize]))"
    by (simp add: run_ops_def)
  have c4: "run_ops toy ''c'' [Add ''mpi'', Add ''mpich'', Concretize, Remove ''mpi''] =
     (Context ''c'')\<lparr>user_specs := [''mpich''], concretized_order := [''mpich@3.2''],
        specs_by_hash := Map.empty\<rparr>"
    unfolding step c3
    by (simp add: remove_def del_index_def Context_def toy_simps toy_parse_def)
  have res: "resolution_of toy ''mpi'' ''mpich@3.2''" "resolution_of toy ''mpich'' ''mpich@3.2''"
    by (simp_all add: resolution_of_def toy_simps toy_parse_def toy_concretize_def)
  show ?thesis
    unfolding c3 c4 Let_def
    by (simp add: context_invariant_def prefix_aligned_def hashes_stored_def install_def
          Context_def res)
qed

end
